theory Spec2Isabelle
  imports Complex_Main "HOL-Library.Sublist" "HOL-Library.List_Lexorder"
begin

section \<open>Python strings\<close>

text \<open>
  A Python \<^verbatim>\<open>str\<close> is a sequence of Unicode code points. It is modelled as a list of
  natural numbers, one per code point, so that the character classes of the regular
  expressions (which are defined on code points, \<^verbatim>\<open>\s\<close> including the non-ASCII
  white space) mean what they mean in Python. Lists are ordered lexicographically
  (\<open>List_Lexorder\<close>), which is Python's order on \<^verbatim>\<open>str\<close>. String literals of the
  source are written \<open>str ''...''\<close>; the backslash is code point 92, the slash 47, the double
  quote 34, the opening brace 123 and the hash sign 35.
\<close>

type_synonym pystr = "nat list"

definition str :: "string \<Rightarrow> pystr" where
  "str s = map of_char s"

text \<open>\<^verbatim>\<open>s.replace(old, new)\<close> for one-character \<open>old\<close> and \<open>new\<close>.\<close>

definition replace_char :: "nat \<Rightarrow> nat \<Rightarrow> pystr \<Rightarrow> pystr" where
  "replace_char old new s = map (\<lambda>c. if c = old then new else c) s"

text \<open>\<^verbatim>\<open>s.endswith(e)\<close>, and \<^verbatim>\<open>s.endswith(es)\<close> for a tuple \<open>es\<close> of suffixes.\<close>

definition endswith :: "pystr \<Rightarrow> pystr \<Rightarrow> bool" where
  "endswith s e = prefix (rev e) (rev s)"

definition endswith_any :: "pystr \<Rightarrow> pystr list \<Rightarrow> bool" where
  "endswith_any s es = list_ex (endswith s) es"

text \<open>\<^verbatim>\<open>sub in s\<close> on strings: \<open>sub\<close> occurs in \<open>s\<close> as a contiguous substring.\<close>

fun contains :: "pystr \<Rightarrow> pystr \<Rightarrow> bool" where
  "contains sub [] = (sub = [])"
| "contains sub (c # cs) = (prefix sub (c # cs) \<or> contains sub cs)"

text \<open>
  The character classes. \<open>is_word\<close> is the class \<^verbatim>\<open>[A-Za-z0-9_]\<close>. \<open>is_space\<close> is the
  class \<^verbatim>\<open>\s\<close> of a \<^verbatim>\<open>str\<close> pattern, which is also what \<^verbatim>\<open>str.strip()\<close> removes: the
  code points for which \<^verbatim>\<open>str.isspace()\<close> holds. \<open>is_linebreak\<close> lists the line
  boundaries of \<^verbatim>\<open>str.splitlines()\<close>.
\<close>

definition is_word :: "nat \<Rightarrow> bool" where
  "is_word c \<longleftrightarrow>
     (65 \<le> c \<and> c \<le> 90) \<or> (97 \<le> c \<and> c \<le> 122) \<or> (48 \<le> c \<and> c \<le> 57) \<or> c = 95"

definition is_space :: "nat \<Rightarrow> bool" where
  "is_space c \<longleftrightarrow>
     (9 \<le> c \<and> c \<le> 13) \<or> (28 \<le> c \<and> c \<le> 32) \<or> c = 133 \<or> c = 160 \<or> c = 5760 \<or>
     (8192 \<le> c \<and> c \<le> 8202) \<or> c = 8232 \<or> c = 8233 \<or> c = 8239 \<or> c = 8287 \<or> c = 12288"

definition is_linebreak :: "nat \<Rightarrow> bool" where
  "is_linebreak c \<longleftrightarrow>
     (10 \<le> c \<and> c \<le> 13) \<or> (28 \<le> c \<and> c \<le> 30) \<or> c = 133 \<or> c = 8232 \<or> c = 8233"

text \<open>\<^verbatim>\<open>s.strip()\<close>: white space removed at both ends.\<close>

definition strip :: "pystr \<Rightarrow> pystr" where
  "strip s = rev (dropWhile is_space (rev (dropWhile is_space s)))"

text \<open>
  \<^verbatim>\<open>s.splitlines()\<close>: the lines of \<open>s\<close> without their line boundaries; a carriage return
  followed by a line feed is one boundary, and there is no empty last line after a final
  boundary. The first argument is the line read so far, reversed.
\<close>

fun splitlines_from :: "pystr \<Rightarrow> pystr \<Rightarrow> pystr list" where
  "splitlines_from cur [] = (if cur = [] then [] else [rev cur])"
| "splitlines_from cur [c] = (if is_linebreak c then [rev cur] else [rev (c # cur)])"
| "splitlines_from cur (c # d # cs) =
     (if c = 13 \<and> d = 10 then rev cur # splitlines_from [] cs
      else if is_linebreak c then rev cur # splitlines_from [] (d # cs)
      else splitlines_from (c # cur) (d # cs))"

definition splitlines :: "pystr \<Rightarrow> pystr list" where
  "splitlines s = splitlines_from [] s"

section \<open>The path filter\<close>

text \<open>
  \<^verbatim>\<open>IGNORE_DIR_PATTERNS = ("/.terraform/", "/.git/", "/vendor/", "/third_party/")\<close> and
  \<^verbatim>\<open>IGNORE_FILE_EXTS = (".tf", ".tfvars", ".json")\<close>.
\<close>

definition IGNORE_DIR_PATTERNS :: "pystr list" where
  "IGNORE_DIR_PATTERNS =
     [str ''/.terraform/'', str ''/.git/'', str ''/vendor/'', str ''/third_party/'']"

definition IGNORE_FILE_EXTS :: "pystr list" where
  "IGNORE_FILE_EXTS = [str ''.tf'', str ''.tfvars'', str ''.json'']"

text \<open>
  \<^verbatim>\<open>should_skip\<close> returns a boolean and writes one of two log lines before returning
  \<^verbatim>\<open>True\<close>. The log line is the only trace of which rule fired, so the model returns it
  beside the decision. The console is taken to accept every line.
\<close>

datatype log_event = SkippingNonTerraform pystr | SkippingIgnoredDir pystr

definition should_skip_logged :: "pystr \<Rightarrow> bool \<times> log_event list" where
  "should_skip_logged path =
     (let p = replace_char 92 47 path in
      if \<not> endswith_any p IGNORE_FILE_EXTS then (True, [SkippingNonTerraform path])
      else if list_ex (\<lambda>s. contains s p) IGNORE_DIR_PATTERNS then (True, [SkippingIgnoredDir path])
      else (False, []))"

definition should_skip :: "pystr \<Rightarrow> bool" where
  "should_skip path = fst (should_skip_logged path)"

section \<open>The two regular expressions\<close>

text \<open>
  \<^verbatim>\<open>VAR_REF_RE = re.compile(r"(?<![A-Za-z0-9_])var\.([A-Za-z0-9_]+)")\<close>.
  \<open>var_ref_match s\<close> matches \<^verbatim>\<open>var\.([A-Za-z0-9_]+)\<close> at the head of \<open>s\<close> and returns the
  captured group and the text after the match. The repetition is greedy and nothing follows
  it in the pattern, so the group is the longest run of word characters.
\<close>

definition var_ref_match :: "pystr \<Rightarrow> (pystr \<times> pystr) option" where
  "var_ref_match s =
     (if prefix (str ''var.'') s
      then (let r = drop 4 s; ident = takeWhile is_word r
            in if ident = [] then None else Some (ident, dropWhile is_word r))
      else None)"

lemma var_ref_match_shorter:
  "var_ref_match s = Some (ident, rest) \<Longrightarrow> length rest < length s"
  by (auto simp: var_ref_match_def Let_def prefix_def str_def split: if_splits
      intro: le_less_trans [OF length_dropWhile_le])

text \<open>
  \<^verbatim>\<open>VAR_REF_RE.findall(txt)\<close>: the groups of the matches found scanning from left to
  right, each search starting where the previous match ended. The flag says whether the
  character before the current position is a word character (the negative lookbehind);
  after a match it is, since the match ends with the group.
\<close>

function findall_var_ref :: "bool \<Rightarrow> pystr \<Rightarrow> pystr list" where
  "findall_var_ref b [] = []"
| "findall_var_ref b (c # cs) =
     (case (if b then None else var_ref_match (c # cs)) of
        Some (ident, rest) \<Rightarrow> ident # findall_var_ref True rest
      | None \<Rightarrow> findall_var_ref (is_word c) cs)"
  by pat_completeness auto
termination
  by (relation "measure (\<lambda>(b, s). length s)")
     (auto split: if_splits dest: var_ref_match_shorter)

text \<open>
  The fallback pattern \<^verbatim>\<open>r'variable\s+"([A-Za-z0-9_]+)"\s*{'\<close>, matched at the head of
  \<open>s\<close>. Each repetition is greedy and is followed by a character outside its class (a
  double quote or a brace), so giving back characters never helps: the match is the one
  that takes the longest runs.
\<close>

definition variable_decl_match :: "pystr \<Rightarrow> (pystr \<times> pystr) option" where
  "variable_decl_match s =
     (if \<not> prefix (str ''variable'') s then None
      else let r1 = drop 8 s; r2 = dropWhile is_space r1 in
        if takeWhile is_space r1 = [] then None
        else (case r2 of
            [] \<Rightarrow> None
          | q # r3 \<Rightarrow>
              if q \<noteq> 34 then None
              else let ident = takeWhile is_word r3; r4 = dropWhile is_word r3 in
                if ident = [] then None
                else (case r4 of
                    [] \<Rightarrow> None
                  | q' # r5 \<Rightarrow>
                      if q' \<noteq> 34 then None
                      else (case dropWhile is_space r5 of
                          [] \<Rightarrow> None
                        | br # r6 \<Rightarrow> if br = 123 then Some (ident, r6) else None))))"

lemma variable_decl_match_shorter:
  assumes "variable_decl_match s = Some (ident, rest)"
  shows "length rest < length s"
proof -
  from assms obtain r3 r5 br where
    a: "dropWhile is_space (drop 8 s) = 34 # r3" and
    b: "dropWhile is_word r3 = 34 # r5" and
    c: "dropWhile is_space r5 = br # rest"
    by (auto simp: variable_decl_match_def Let_def split: if_splits list.splits)
  have "length rest < length r5"
    using length_dropWhile_le [of is_space r5] c by simp
  also have "length r5 < length r3"
    using length_dropWhile_le [of is_word r3] b by simp
  also have "length r3 < length (drop 8 s)"
    using length_dropWhile_le [of is_space "drop 8 s"] a by simp
  also have "\<dots> \<le> length s" by simp
  finally show ?thesis .
qed

text \<open>\<^verbatim>\<open>re.findall(r'variable\s+"([A-Za-z0-9_]+)"\s*{', txt)\<close>.\<close>

function findall_variable_decl :: "pystr \<Rightarrow> pystr list" where
  "findall_variable_decl [] = []"
| "findall_variable_decl (c # cs) =
     (case variable_decl_match (c # cs) of
        Some (ident, rest) \<Rightarrow> ident # findall_variable_decl rest
      | None \<Rightarrow> findall_variable_decl cs)"
  by pat_completeness auto
termination
  by (relation "measure length") (auto dest: variable_decl_match_shorter)

section \<open>Exceptions, parsed documents and the environment\<close>

text \<open>
  A raised exception is a value: \<open>Inl e\<close> is a raise of \<open>e\<close>, \<open>Inr v\<close> a normal return
  of \<open>v\<close>. \<open>OSError\<close> and \<open>UnicodeDecodeError\<close> come from opening and reading a file,
  \<open>ParseError\<close> stands for whatever a parser raises on text it rejects, \<open>TypeError\<close> and
  \<open>KeyError\<close> come from operations on parsed values.
\<close>

datatype error = OSError | UnicodeDecodeError | ParseError | TypeError | KeyError

text \<open>
  What \<^verbatim>\<open>hcl2.load\<close> and \<^verbatim>\<open>json.load\<close> return: a Python value built from \<^verbatim>\<open>None\<close>,
  booleans, numbers, strings, lists and dictionaries with string keys. A dictionary is
  the list of its items in insertion order.
\<close>

datatype pyval =
    PNone
  | PBool bool
  | PInt int
  | PFloat real
  | PStr pystr
  | PList "pyval list"
  | PDict "(pystr \<times> pyval) list"

text \<open>
  \<^verbatim>\<open>k in v\<close> for a string \<open>k\<close>: a key test on a dictionary, a membership test on a
  list, a substring test on a string, and a \<^verbatim>\<open>TypeError\<close> on a value that is not
  iterable.
\<close>

fun py_in :: "pystr \<Rightarrow> pyval \<Rightarrow> error + bool" where
  "py_in k (PDict kvs) = Inr (k \<in> set (map fst kvs))"
| "py_in k (PList xs) = Inr (PStr k \<in> set xs)"
| "py_in k (PStr s) = Inr (contains k s)"
| "py_in k PNone = Inl TypeError"
| "py_in k (PBool b) = Inl TypeError"
| "py_in k (PInt i) = Inl TypeError"
| "py_in k (PFloat x) = Inl TypeError"

text \<open>
  \<^verbatim>\<open>v[k]\<close> for a string \<open>k\<close>: the value stored under \<open>k\<close> in a dictionary
  (\<^verbatim>\<open>KeyError\<close> when there is none), a \<^verbatim>\<open>TypeError\<close> on every other value (a list or
  a string takes integer indices, the others are not subscriptable).
\<close>

fun py_getitem :: "pyval \<Rightarrow> pystr \<Rightarrow> error + pyval" where
  "py_getitem (PDict kvs) k = (case map_of kvs k of Some v \<Rightarrow> Inr v | None \<Rightarrow> Inl KeyError)"
| "py_getitem (PList xs) k = Inl TypeError"
| "py_getitem (PStr s) k = Inl TypeError"
| "py_getitem PNone k = Inl TypeError"
| "py_getitem (PBool b) k = Inl TypeError"
| "py_getitem (PInt i) k = Inl TypeError"
| "py_getitem (PFloat x) k = Inl TypeError"

text \<open>
  \<^verbatim>\<open>for entry in v\<close>: the elements of a list, the keys of a dictionary, the characters
  of a string (each a one-character string), and a \<^verbatim>\<open>TypeError\<close> on a value that is not
  iterable.
\<close>

fun py_iter :: "pyval \<Rightarrow> error + pyval list" where
  "py_iter (PList xs) = Inr xs"
| "py_iter (PDict kvs) = Inr (map (\<lambda>kv. PStr (fst kv)) kvs)"
| "py_iter (PStr s) = Inr (map (\<lambda>c. PStr [c]) s)"
| "py_iter PNone = Inl TypeError"
| "py_iter (PBool b) = Inl TypeError"
| "py_iter (PInt i) = Inl TypeError"
| "py_iter (PFloat x) = Inl TypeError"

text \<open>
  The environment of one run. \<open>read_text env path\<close> is what
  \<^verbatim>\<open>open(path, "r", encoding="utf-8")\<close> followed by \<^verbatim>\<open>read()\<close> gives: the decoded text, or
  the exception raised (the path cannot be opened, or its bytes are not UTF-8).
  \<open>hcl2_loads\<close> and \<open>json_loads\<close> are the two parsers, which are not code of this
  repository: any function from text to a value or an exception. The three \<open>glob\<close> fields
  are the lists \<^verbatim>\<open>glob.glob\<close> returns for \<^verbatim>\<open>"**/*.tf"\<close>, \<^verbatim>\<open>"**/*.tfvars*"\<close> and
  \<^verbatim>\<open>"**/*.tfvars.json"\<close>. \<open>ignore_file\<close> is \<open>None\<close> when
  \<^verbatim>\<open>(repo_root / ".tfdriftignore").exists()\<close> is false, and otherwise the outcome of
  \<^verbatim>\<open>read_text(encoding="utf-8")\<close> on that path.
\<close>

record env =
  read_text :: "pystr \<Rightarrow> error + pystr"
  hcl2_loads :: "pystr \<Rightarrow> error + pyval"
  json_loads :: "pystr \<Rightarrow> error + pyval"
  glob_tf :: "pystr list"
  glob_tfvars :: "pystr list"
  glob_tfvars_json :: "pystr list"
  ignore_file :: "(error + pystr) option"

text \<open>\<^verbatim>\<open>hcl_load(path)\<close>: open, read and parse; \<^verbatim>\<open>json.load(f)\<close> on the opened file.\<close>

definition hcl_load :: "env \<Rightarrow> pystr \<Rightarrow> error + pyval" where
  "hcl_load env path =
     (case read_text env path of Inl e \<Rightarrow> Inl e | Inr txt \<Rightarrow> hcl2_loads env txt)"

definition json_load :: "env \<Rightarrow> pystr \<Rightarrow> error + pyval" where
  "json_load env path =
     (case read_text env path of Inl e \<Rightarrow> Inl e | Inr txt \<Rightarrow> json_loads env txt)"

section \<open>The extractors\<close>

subsection \<open>Declarations\<close>

text \<open>
  The fallback of \<^verbatim>\<open>parse_declared_vars_from_tf\<close> (the body of its \<^verbatim>\<open>except\<close>): the file
  is opened and read again, outside any \<^verbatim>\<open>try\<close>, and scanned with the pattern.
\<close>

definition regex_fallback :: "env \<Rightarrow> pystr \<Rightarrow> error + pystr set" where
  "regex_fallback env path =
     (case read_text env path of
        Inl e \<Rightarrow> Inl e
      | Inr txt \<Rightarrow> Inr (set (findall_variable_decl txt)))"

text \<open>
  The structured branch. \<open>blocks_of\<close> builds the list \<^verbatim>\<open>blocks\<close>; \<open>entry_names\<close> is
  the body of \<^verbatim>\<open>for entry in blk["variable"]\<close> (the keys of an entry that is a
  dictionary, nothing for any other entry); \<open>block_declared\<close> is the body of
  \<^verbatim>\<open>for blk in blocks\<close>, and \<open>blocks_declared\<close> that loop, both on the set
  \<^verbatim>\<open>declared\<close> built so far.
\<close>

fun blocks_of :: "pyval \<Rightarrow> pyval list" where
  "blocks_of (PDict kvs) = [PDict kvs]"
| "blocks_of (PList xs) = xs"
| "blocks_of PNone = []"
| "blocks_of (PBool b) = []"
| "blocks_of (PInt i) = []"
| "blocks_of (PFloat x) = []"
| "blocks_of (PStr s) = []"

fun entry_names :: "pyval \<Rightarrow> pystr set" where
  "entry_names (PDict kvs) = set (map fst kvs)"
| "entry_names (PList xs) = {}"
| "entry_names PNone = {}"
| "entry_names (PBool b) = {}"
| "entry_names (PInt i) = {}"
| "entry_names (PFloat x) = {}"
| "entry_names (PStr s) = {}"

definition block_declared :: "pyval \<Rightarrow> pystr set \<Rightarrow> error + pystr set" where
  "block_declared blk declared =
     (case py_in (str ''variable'') blk of
        Inl e \<Rightarrow> Inl e
      | Inr present \<Rightarrow>
          if \<not> present then Inr declared
          else (case py_getitem blk (str ''variable'') of
              Inl e \<Rightarrow> Inl e
            | Inr v \<Rightarrow>
                (case py_iter v of
                   Inl e \<Rightarrow> Inl e
                 | Inr entries \<Rightarrow> Inr (fold (\<lambda>entry acc. acc \<union> entry_names entry) entries declared))))"

fun blocks_declared :: "pyval list \<Rightarrow> pystr set \<Rightarrow> error + pystr set" where
  "blocks_declared [] declared = Inr declared"
| "blocks_declared (blk # blks) declared =
     (case block_declared blk declared of
        Inl e \<Rightarrow> Inl e
      | Inr declared' \<Rightarrow> blocks_declared blks declared')"

definition declared_from_data :: "pyval \<Rightarrow> error + pystr set" where
  "declared_from_data data = blocks_declared (blocks_of data) {}"

text \<open>
  \<^verbatim>\<open>parse_declared_vars_from_tf(path)\<close>: any exception of \<^verbatim>\<open>hcl_load\<close> leads to the
  fallback; a parsed document goes through the structured branch, which stands outside
  the \<^verbatim>\<open>try\<close>.
\<close>

definition parse_declared_vars_from_tf :: "env \<Rightarrow> pystr \<Rightarrow> error + pystr set" where
  "parse_declared_vars_from_tf env path =
     (case hcl_load env path of
        Inl e \<Rightarrow> regex_fallback env path
      | Inr data \<Rightarrow> declared_from_data data)"

subsection \<open>References\<close>

definition parse_used_vars_from_tf :: "env \<Rightarrow> pystr \<Rightarrow> error + pystr set" where
  "parse_used_vars_from_tf env path =
     (case read_text env path of
        Inl e \<Rightarrow> Inl e
      | Inr txt \<Rightarrow> Inr (set (findall_var_ref False txt)))"

subsection \<open>Overrides\<close>

text \<open>
  \<^verbatim>\<open>parse_tfvars(path)\<close>. In each branch the \<^verbatim>\<open>try\<close> body returns the keys of a
  dictionary and otherwise falls through to the final \<^verbatim>\<open>return set()\<close>
  (\<open>keys_if_dict\<close> is \<open>None\<close> then); the handler catches every exception and returns the
  empty set.
\<close>

fun keys_if_dict :: "pyval \<Rightarrow> pystr set option" where
  "keys_if_dict (PDict kvs) = Some (set (map fst kvs))"
| "keys_if_dict (PList xs) = None"
| "keys_if_dict PNone = None"
| "keys_if_dict (PBool b) = None"
| "keys_if_dict (PInt i) = None"
| "keys_if_dict (PFloat x) = None"
| "keys_if_dict (PStr s) = None"

definition try_keys :: "error + pyval \<Rightarrow> error + pystr set" where
  "try_keys loaded =
     (case loaded of
        Inl e \<Rightarrow> Inr {}
      | Inr obj \<Rightarrow> (case keys_if_dict obj of Some keys \<Rightarrow> Inr keys | None \<Rightarrow> Inr {}))"

definition parse_tfvars :: "env \<Rightarrow> pystr \<Rightarrow> error + pystr set" where
  "parse_tfvars env path =
     (if endswith path (str ''.json'') then try_keys (json_load env path)
      else try_keys (hcl_load env path))"

subsection \<open>The ignore list\<close>

definition load_ignorelist :: "env \<Rightarrow> error + pystr set" where
  "load_ignorelist env =
     (case ignore_file env of
        None \<Rightarrow> Inr {}
      | Some (Inl e) \<Rightarrow> Inl e
      | Some (Inr txt) \<Rightarrow>
          Inr (set (filter (\<lambda>line. line \<noteq> [] \<and> \<not> prefix (str ''#'') line)
                      (map strip (splitlines txt)))))"

section \<open>The run\<close>

text \<open>
  The body of the first loop of \<^verbatim>\<open>main\<close> on the pair \<^verbatim>\<open>(declared, used)\<close>, and the body
  of the two override loops on \<^verbatim>\<open>tfvars_keys\<close>; then the loops over a list of paths.
\<close>

definition tf_step :: "env \<Rightarrow> pystr \<Rightarrow> pystr set \<times> pystr set \<Rightarrow> error + pystr set \<times> pystr set" where
  "tf_step env path acc =
     (if should_skip path then Inr acc
      else (case parse_declared_vars_from_tf env path of
          Inl e \<Rightarrow> Inl e
        | Inr d \<Rightarrow>
            (case parse_used_vars_from_tf env path of
               Inl e \<Rightarrow> Inl e
             | Inr u \<Rightarrow> Inr (fst acc \<union> d, snd acc \<union> u))))"

fun collect_tf :: "env \<Rightarrow> pystr list \<Rightarrow> pystr set \<times> pystr set \<Rightarrow> error + pystr set \<times> pystr set" where
  "collect_tf env [] acc = Inr acc"
| "collect_tf env (path # paths) acc =
     (case tf_step env path acc of
        Inl e \<Rightarrow> Inl e
      | Inr acc' \<Rightarrow> collect_tf env paths acc')"

definition tfvars_step :: "env \<Rightarrow> pystr \<Rightarrow> pystr set \<Rightarrow> error + pystr set" where
  "tfvars_step env path keys =
     (if should_skip path then Inr keys
      else (case parse_tfvars env path of
          Inl e \<Rightarrow> Inl e
        | Inr k \<Rightarrow> Inr (keys \<union> k)))"

fun collect_tfvars :: "env \<Rightarrow> pystr list \<Rightarrow> pystr set \<Rightarrow> error + pystr set" where
  "collect_tfvars env [] keys = Inr keys"
| "collect_tfvars env (path # paths) keys =
     (case tfvars_step env path keys of
        Inl e \<Rightarrow> Inl e
      | Inr keys' \<Rightarrow> collect_tfvars env paths keys')"

text \<open>
  The four sets \<^verbatim>\<open>main\<close> holds when the comparison starts: \<^verbatim>\<open>declared\<close>, \<^verbatim>\<open>used\<close>,
  \<^verbatim>\<open>tfvars_keys\<close> and \<^verbatim>\<open>ignore\<close>, in the order the source computes them.
\<close>

definition scan :: "env \<Rightarrow> error + pystr set \<times> pystr set \<times> pystr set \<times> pystr set" where
  "scan env =
     (case collect_tf env (glob_tf env) ({}, {}) of
        Inl e \<Rightarrow> Inl e
      | Inr du \<Rightarrow>
          (case collect_tfvars env (glob_tfvars env) {} of
             Inl e \<Rightarrow> Inl e
           | Inr k1 \<Rightarrow>
               (case collect_tfvars env (glob_tfvars_json env) k1 of
                  Inl e \<Rightarrow> Inl e
                | Inr k2 \<Rightarrow>
                    (case load_ignorelist env of
                       Inl e \<Rightarrow> Inl e
                     | Inr ig \<Rightarrow> Inr (fst du, snd du, k2, ig)))))"

text \<open>
  \<^verbatim>\<open>sorted(s)\<close> on a set is the ascending list of its elements. The state of \<^verbatim>\<open>main\<close>
  at its return: the four sets, the three sorted lists and the returned status.
\<close>

record drift =
  declared :: "pystr set"
  used :: "pystr set"
  tfvars_keys :: "pystr set"
  ignore :: "pystr set"
  unused :: "pystr list"
  missing :: "pystr list"
  tfvars_extra :: "pystr list"
  status :: nat

definition compare_sets :: "pystr set \<times> pystr set \<times> pystr set \<times> pystr set \<Rightarrow> drift" where
  "compare_sets sets =
     (case sets of (d, u, k, ig) \<Rightarrow>
        (let un = sorted_list_of_set ((d - u) - ig);
             mi = sorted_list_of_set ((u - d) - ig);
             ex = sorted_list_of_set ((k - d) - ig)
         in \<lparr>declared = d, used = u, tfvars_keys = k, ignore = ig,
             unused = un, missing = mi, tfvars_extra = ex,
             status = (if un = [] \<and> mi = [] \<and> ex = [] then 0 else 1)\<rparr>))"

definition main_state :: "env \<Rightarrow> error + drift" where
  "main_state env = (case scan env of Inl e \<Rightarrow> Inl e | Inr sets \<Rightarrow> Inr (compare_sets sets))"

definition main :: "env \<Rightarrow> error + nat" where
  "main env = (case main_state env of Inl e \<Rightarrow> Inl e | Inr r \<Rightarrow> Inr (status r))"

text \<open>
  The process: the import guard at the top of the module exits with status 2 when
  \<^verbatim>\<open>hcl2\<close> cannot be imported; otherwise \<^verbatim>\<open>sys.exit(main())\<close> exits with the status
  \<^verbatim>\<open>main\<close> returns, and an exception \<^verbatim>\<open>main\<close> lets through ends the process uncaught.
\<close>

datatype outcome = Exit nat | Uncaught error

definition program :: "bool \<Rightarrow> env \<Rightarrow> outcome" where
  "program hcl2_installed env =
     (if \<not> hcl2_installed then Exit 2
      else (case main env of Inl e \<Rightarrow> Uncaught e | Inr code \<Rightarrow> Exit code))"

section \<open>An example tree\<close>

text \<open>
  A small repository on which the theorems below are instantiated. \<^verbatim>\<open>variables.tf\<close>
  declares \<open>region\<close> and \<open>env\<close>; \<^verbatim>\<open>main.tf\<close> refers to \<open>var.region\<close> and
  \<open>var.project_id\<close>; \<^verbatim>\<open>broken.tf\<close> does not parse and declares \<open>legacy\<close> and \<open>alpha\<close>; a file below
  a \<^verbatim>\<open>vendor\<close> directory declares and uses more; \<^verbatim>\<open>prod.tfvars.json\<close> supplies
  \<open>region\<close> and \<open>extra_flag\<close>; the ignore file lists \<open>legacy\<close> and \<open>extra_flag\<close>.
\<close>

definition variables_tf :: pystr where
  "variables_tf = str ''variable \"region\" {}'' @ [10] @ str ''variable \"env\" {}'' @ [10]"

definition main_tf :: pystr where
  "main_tf = str ''region = var.region'' @ [10] @ str ''project = var.project_id + myvar.x'' @ [10]"

definition broken_tf :: pystr where
  "broken_tf = str ''variable \"legacy\" {'' @ [10] @ str ''variable \"alpha\" {''"

definition vendor_tf :: pystr where
  "vendor_tf = str ''variable \"hidden\" {} x = var.ghost''"

definition prod_json :: pystr where
  "prod_json = str ''{\"region\": \"eu\", \"extra_flag\": true}''"

definition ignore_text :: pystr where
  "ignore_text = str ''# accepted'' @ [10] @ str ''  legacy  '' @ [10, 10] @ str ''extra_flag'' @ [10]"

definition vendor_path :: pystr where
  "vendor_path = str ''modules'' @ [92] @ str ''vendor'' @ [92] @ str ''x.tf''"

definition example_read :: "pystr \<Rightarrow> error + pystr" where
  "example_read path =
     (if path = str ''variables.tf'' then Inr variables_tf
      else if path = str ''main.tf'' then Inr main_tf
      else if path = str ''broken.tf'' then Inr broken_tf
      else if path = vendor_path then Inr vendor_tf
      else if path = str ''prod.tfvars.json'' then Inr prod_json
      else Inl OSError)"

definition example_hcl :: "pystr \<Rightarrow> error + pyval" where
  "example_hcl txt =
     (if txt = variables_tf
      then Inr (PDict [(str ''variable'',
                  PList [PDict [(str ''region'', PDict [])], PDict [(str ''env'', PDict [])]])])
      else if txt = main_tf
      then Inr (PDict [(str ''region'', PStr (str ''eu'')), (str ''project'', PStr (str ''p''))])
      else Inl ParseError)"

definition example_json :: "pystr \<Rightarrow> error + pyval" where
  "example_json txt =
     (if txt = prod_json
      then Inr (PDict [(str ''region'', PStr (str ''eu'')), (str ''extra_flag'', PBool True)])
      else Inl ParseError)"

definition example_tree :: env where
  "example_tree =
     \<lparr>read_text = example_read, hcl2_loads = example_hcl, json_loads = example_json,
      glob_tf = [str ''variables.tf'', str ''main.tf'', str ''broken.tf'', vendor_path],
      glob_tfvars = [str ''prod.tfvars.json'', str ''notes.tfvars.bak''],
      glob_tfvars_json = [str ''prod.tfvars.json''],
      ignore_file = Some (Inr ignore_text)\<rparr>"

text \<open>A tree with no drift: one file declares and uses \<open>a\<close>.\<close>

definition clean_tree :: env where
  "clean_tree =
     \<lparr>read_text = (\<lambda>path. if path = str ''a.tf'' then Inr (str ''variable \"a\" { } x = var.a'')
                          else Inl OSError),
      hcl2_loads = (\<lambda>txt. Inl ParseError), json_loads = (\<lambda>txt. Inl ParseError),
      glob_tf = [str ''a.tf''], glob_tfvars = [], glob_tfvars_json = [],
      ignore_file = None\<rparr>"

text \<open>
  Two more trees. In the first, \<^verbatim>\<open>notes.tf\<close> is not valid UTF-8 (say, a Latin-1 comment),
  so reading it raises. In the second, \<^verbatim>\<open>main.tf\<close> holds the single top-level attribute
  \<^verbatim>\<open>variable = 5\<close>, which the parser returns as the dictionary \<^verbatim>\<open>{"variable": 5}\<close>.
\<close>

definition undecodable_tree :: env where
  "undecodable_tree =
     \<lparr>read_text = (\<lambda>path. Inl UnicodeDecodeError),
      hcl2_loads = (\<lambda>txt. Inl ParseError), json_loads = (\<lambda>txt. Inl ParseError),
      glob_tf = [str ''notes.tf''], glob_tfvars = [], glob_tfvars_json = [],
      ignore_file = None\<rparr>"

definition attribute_tree :: env where
  "attribute_tree =
     \<lparr>read_text = (\<lambda>path. if path = str ''main.tf'' then Inr (str ''variable = 5'')
                          else Inl OSError),
      hcl2_loads = (\<lambda>txt. if txt = str ''variable = 5''
                          then Inr (PDict [(str ''variable'', PInt 5)]) else Inl ParseError),
      json_loads = (\<lambda>txt. Inl ParseError),
      glob_tf = [str ''main.tf''], glob_tfvars = [], glob_tfvars_json = [],
      ignore_file = None\<rparr>"

section \<open>The two scans in the words of the specification\<close>

text \<open>
  These definitions follow the specification, not the source; the scans of the source are
  compared with them below. The reference scan: \<open>var_ref_at txt i ident\<close>:
  at index \<open>i\<close> of \<open>txt\<close> stands \<^verbatim>\<open>var.\<close> followed by \<open>ident\<close>, where the character
  before index \<open>i\<close> (if any) is not a word character, \<open>ident\<close> is a non-empty run of
  word characters, and the character after it (if any) is not a word character.
  \<open>reported txt k i ident\<close>: scanning from index \<open>k\<close>, the match at \<open>i\<close> is one of the
  non-overlapping matches found from left to right. The first match at or after \<open>k\<close> is
  reported, and then the matches reported by the scan from the end of that match.
\<close>

definition var_ref_at :: "pystr \<Rightarrow> nat \<Rightarrow> pystr \<Rightarrow> bool" where
  "var_ref_at txt i ident \<longleftrightarrow>
     (\<exists>pre post. txt = pre @ str ''var.'' @ ident @ post \<and> length pre = i \<and>
        (pre = [] \<or> \<not> is_word (last pre)) \<and>
        ident \<noteq> [] \<and> (\<forall>c \<in> set ident. is_word c) \<and>
        (post = [] \<or> \<not> is_word (hd post)))"

definition no_var_ref_between :: "pystr \<Rightarrow> nat \<Rightarrow> nat \<Rightarrow> bool" where
  "no_var_ref_between s k i \<longleftrightarrow> (\<forall>j x. k \<le> j \<and> j < i \<longrightarrow> \<not> var_ref_at s j x)"

inductive reported :: "pystr \<Rightarrow> nat \<Rightarrow> nat \<Rightarrow> pystr \<Rightarrow> bool" for src :: pystr where
  reported_here: "\<lbrakk>k \<le> i; no_var_ref_between src k i; var_ref_at src i ident\<rbrakk>
          \<Longrightarrow> reported src k i ident"
| reported_later: "\<lbrakk>k \<le> i; no_var_ref_between src k i; var_ref_at src i ident;
           reported src (i + 4 + length ident) i' ident'\<rbrakk>
          \<Longrightarrow> reported src k i' ident'"

text \<open>
  The declaration headers of the fallback: \<open>decl_header s ident rest\<close>: \<open>s\<close> starts with
  \<^verbatim>\<open>variable\<close>, white space, \<open>ident\<close> between double quotes, optional white space and an
  opening brace, and \<open>rest\<close> is what follows the brace; \<open>ident\<close> is a non-empty run of
  word characters. \<open>declared_headers txt\<close> are the identifiers of the headers that start
  anywhere in \<open>txt\<close>.
\<close>

definition decl_header :: "pystr \<Rightarrow> pystr \<Rightarrow> pystr \<Rightarrow> bool" where
  "decl_header s ident rest \<longleftrightarrow>
     (\<exists>ws ws'. s = str ''variable'' @ ws @ [34] @ ident @ [34] @ ws' @ [123] @ rest \<and>
        ws \<noteq> [] \<and> list_all is_space ws \<and> ident \<noteq> [] \<and> list_all is_word ident \<and>
        list_all is_space ws')"

definition declared_headers :: "pystr \<Rightarrow> pystr set" where
  "declared_headers txt = {ident. \<exists>pre s rest. txt = pre @ s \<and> decl_header s ident rest}"

section \<open>Facts about strings and the loops\<close>







lemma collect_tf_append:
  "collect_tf env (ps @ qs) acc =
     (case collect_tf env ps acc of Inl e \<Rightarrow> Inl e | Inr acc' \<Rightarrow> collect_tf env qs acc')"
  by (induction ps arbitrary: acc) (auto split: sum.splits)

lemma collect_tfvars_append:
  "collect_tfvars env (ps @ qs) keys =
     (case collect_tfvars env ps keys of Inl e \<Rightarrow> Inl e | Inr keys' \<Rightarrow> collect_tfvars env qs keys')"
  by (induction ps arbitrary: keys) (auto split: sum.splits)



lemmas example_defs = example_tree_def example_read_def example_hcl_def example_json_def
  variables_tf_def main_tf_def broken_tf_def vendor_tf_def prod_json_def ignore_text_def
  vendor_path_def

lemmas filter_defs = should_skip_def should_skip_logged_def replace_char_def endswith_any_def
  endswith_def IGNORE_FILE_EXTS_def IGNORE_DIR_PATTERNS_def

section \<open>The path filter: denylisted segments\<close>



text \<open>
  The configured patterns carry a slash on both sides. A relative path that begins with
  the name of such a directory, as \<^verbatim>\<open>glob\<close> returns it for a directory at the top of the
  tree, contains none of the patterns and is not skipped.
\<close>

lemma top_level_directory_not_skipped:
  "\<not> should_skip (str ''vendor/main.tf'') \<and> should_skip (str ''modules/vendor/main.tf'')"
  by (simp add: filter_defs str_def)

section \<open>The path filter: unrecognized extensions\<close>



section \<open>The scan for references finds the non-overlapping matches\<close>

lemma takeWhile_dropWhile_split:
  assumes "\<forall>c \<in> set a. P c" and "b = [] \<or> \<not> P (hd b)"
  shows "takeWhile P (a @ b) = a \<and> dropWhile P (a @ b) = b"
proof (cases b)
  case Nil
  with assms show ?thesis by simp
next
  case (Cons x xs)
  with assms have "\<not> P x" by simp
  with assms(1) Cons show ?thesis
    by (simp add: takeWhile_append2 dropWhile_append2)
qed

lemma var_ref_at_bound:
  assumes "var_ref_at txt i ident"
  shows "i + 4 + length ident \<le> length txt"
  using assms unfolding var_ref_at_def by (auto simp: str_def)

lemma var_ref_at_match:
  assumes "var_ref_at txt k ident"
  shows "\<not> (0 < k \<and> is_word (txt ! (k - 1)))"
    and "var_ref_match (drop k txt) = Some (ident, drop (k + 4 + length ident) txt)"
proof -
  from assms obtain pre post where
    eq: "txt = pre @ str ''var.'' @ ident @ post" and len: "length pre = k" and
    pre: "pre = [] \<or> \<not> is_word (last pre)" and ne: "ident \<noteq> []" and
    w: "\<forall>c \<in> set ident. is_word c" and post: "post = [] \<or> \<not> is_word (hd post)"
    unfolding var_ref_at_def by blast
  show "\<not> (0 < k \<and> is_word (txt ! (k - 1)))"
  proof
    assume a: "0 < k \<and> is_word (txt ! (k - 1))"
    then have "pre \<noteq> []" using len by auto
    moreover have "txt ! (k - 1) = last pre"
      using a len eq \<open>pre \<noteq> []\<close> by (simp add: nth_append last_conv_nth)
    ultimately show False using a pre by simp
  qed
  have d: "drop k txt = str ''var.'' @ ident @ post"
    using eq len by simp
  have tw: "takeWhile is_word (ident @ post) = ident \<and> dropWhile is_word (ident @ post) = post"
    using takeWhile_dropWhile_split [OF w post] .
  have "length (pre @ str ''var.'' @ ident) = k + 4 + length ident"
    using len by (simp add: str_def)
  moreover have "drop (length (pre @ str ''var.'' @ ident)) ((pre @ str ''var.'' @ ident) @ post) = post"
    by (simp only: drop_append length_append diff_self_eq_0 drop_all order_refl drop_0 append_Nil)
  ultimately have "drop (k + 4 + length ident) txt = post"
    using eq by simp
  then show "var_ref_match (drop k txt) = Some (ident, drop (k + 4 + length ident) txt)"
    using d tw ne by (simp add: var_ref_match_def str_def)
qed

lemma match_var_ref_at:
  assumes "k \<le> length txt" and "\<not> (0 < k \<and> is_word (txt ! (k - 1)))"
    and "var_ref_match (drop k txt) = Some (ident, rest)"
  shows "var_ref_at txt k ident"
proof -
  from assms(3) have p: "prefix (str ''var.'') (drop k txt)"
    and ident: "ident = takeWhile is_word (drop 4 (drop k txt))" and ne: "ident \<noteq> []"
    by (auto simp: var_ref_match_def Let_def split: if_splits)
  from p obtain r where r: "drop k txt = str ''var.'' @ r" by (auto simp: prefix_def)
  then have ident': "ident = takeWhile is_word r" using ident by (simp add: str_def)
  define post where "post = dropWhile is_word r"
  have "r = ident @ post" by (simp add: ident' post_def)
  then have eq: "txt = take k txt @ str ''var.'' @ ident @ post"
    using r by (metis append_take_drop_id)
  have len: "length (take k txt) = k" using assms(1) by simp
  have pre: "take k txt = [] \<or> \<not> is_word (last (take k txt))"
  proof (cases "k = 0")
    case True
    then show ?thesis by simp
  next
    case False
    then have "take k txt \<noteq> []" and "length (take k txt) - 1 < k"
      using assms(1) by auto
    then have "last (take k txt) = txt ! (k - 1)"
      using len by (simp add: last_conv_nth del: length_take)
    then show ?thesis using assms(2) False by simp
  qed
  have w: "\<forall>c \<in> set ident. is_word c"
    unfolding ident' by (auto dest: set_takeWhileD)
  have post: "post = [] \<or> \<not> is_word (hd post)"
    unfolding post_def by (metis hd_dropWhile)
  show ?thesis unfolding var_ref_at_def
    using eq len pre ne w post by blast
qed

lemma var_ref_at_unique:
  "var_ref_at txt k x \<Longrightarrow> var_ref_at txt k y \<Longrightarrow> x = y"
  by (drule var_ref_at_match(2))+ simp

lemma no_var_ref_between_Suc:
  assumes "\<forall>x. \<not> var_ref_at s k x"
  shows "no_var_ref_between s k i \<longleftrightarrow> no_var_ref_between s (Suc k) i"
proof
  assume a: "no_var_ref_between s k i"
  show "no_var_ref_between s (Suc k) i"
    unfolding no_var_ref_between_def
  proof (intro allI impI)
    fix j x
    assume "Suc k \<le> j \<and> j < i"
    then have "k \<le> j \<and> j < i" by simp
    then show "\<not> var_ref_at s j x" using a unfolding no_var_ref_between_def by blast
  qed
next
  assume a: "no_var_ref_between s (Suc k) i"
  show "no_var_ref_between s k i"
    unfolding no_var_ref_between_def
  proof (intro allI impI)
    fix j x
    assume j: "k \<le> j \<and> j < i"
    show "\<not> var_ref_at s j x"
    proof (cases "j = k")
      case True
      then show ?thesis using assms by simp
    next
      case False
      then have "Suc k \<le> j \<and> j < i" using j by simp
      then show ?thesis using a unfolding no_var_ref_between_def by blast
    qed
  qed
qed

lemma first_match_here:
  assumes "var_ref_at s k x" and "k \<le> i" and "no_var_ref_between s k i"
  shows "i = k"
proof (rule ccontr)
  assume "i \<noteq> k"
  then have "k \<le> k \<and> k < i" using assms(2) by simp
  then have "\<not> var_ref_at s k x" using assms(3) unfolding no_var_ref_between_def by blast
  then show False using assms(1) by simp
qed

lemma no_var_ref_between_refl: "no_var_ref_between s k k"
  unfolding no_var_ref_between_def by (meson leD)

lemma reported_no_match_here:
  assumes "\<forall>x. \<not> var_ref_at s k x"
  shows "reported s k i ident \<longleftrightarrow> reported s (Suc k) i ident"
proof
  assume "reported s k i ident"
  then show "reported s (Suc k) i ident"
  proof (cases rule: reported.cases)
    case reported_here
    have "k \<noteq> i" using assms reported_here(3) by blast
    then have "Suc k \<le> i" using reported_here(1) by simp
    moreover have "no_var_ref_between s (Suc k) i"
      using reported_here(2) no_var_ref_between_Suc [OF assms] by simp
    ultimately show ?thesis
      using reported_here(3) by (rule reported.reported_here)
  next
    case (reported_later i0 ident0)
    have "k \<noteq> i0" using assms reported_later(3) by blast
    then have "Suc k \<le> i0" using reported_later(1) by simp
    moreover have "no_var_ref_between s (Suc k) i0"
      using reported_later(2) no_var_ref_between_Suc [OF assms] by simp
    ultimately show ?thesis
      using reported_later(3,4) by (rule reported.reported_later)
  qed
next
  assume "reported s (Suc k) i ident"
  then show "reported s k i ident"
  proof (cases rule: reported.cases)
    case reported_here
    have "k \<le> i" using reported_here(1) by simp
    moreover have "no_var_ref_between s k i"
      using reported_here(2) no_var_ref_between_Suc [OF assms] by simp
    ultimately show ?thesis
      using reported_here(3) by (rule reported.reported_here)
  next
    case (reported_later i0 ident0)
    have "k \<le> i0" using reported_later(1) by simp
    moreover have "no_var_ref_between s k i0"
      using reported_later(2) no_var_ref_between_Suc [OF assms] by simp
    ultimately show ?thesis
      using reported_later(3,4) by (rule reported.reported_later)
  qed
qed

lemma reported_match_here:
  assumes "var_ref_at s k x"
  shows "reported s k i ident \<longleftrightarrow>
         (i = k \<and> ident = x) \<or> reported s (k + 4 + length x) i ident"
proof
  assume "reported s k i ident"
  then show "(i = k \<and> ident = x) \<or> reported s (k + 4 + length x) i ident"
  proof (cases rule: reported.cases)
    case reported_here
    have "i = k" using assms reported_here(1,2) by (rule first_match_here)
    moreover have "ident = x"
      using reported_here(3) assms unfolding \<open>i = k\<close> by (rule var_ref_at_unique)
    ultimately show ?thesis by simp
  next
    case (reported_later i0 ident0)
    have i0: "i0 = k" using assms reported_later(1,2) by (rule first_match_here)
    have "ident0 = x"
      using reported_later(3) assms unfolding i0 by (rule var_ref_at_unique)
    then show ?thesis using reported_later(4) i0 by simp
  qed
next
  assume "(i = k \<and> ident = x) \<or> reported s (k + 4 + length x) i ident"
  then show "reported s k i ident"
  proof
    assume "i = k \<and> ident = x"
    moreover have "reported s k k x"
      using order_refl no_var_ref_between_refl assms by (rule reported.reported_here)
    ultimately show ?thesis by simp
  next
    assume "reported s (k + 4 + length x) i ident"
    with order_refl no_var_ref_between_refl assms show ?thesis
      by (rule reported.reported_later)
  qed
qed

lemma reported_beyond_end:
  assumes "length s \<le> k"
  shows "\<not> reported s k i ident"
proof
  assume "reported s k i ident"
  then obtain j x where "k \<le> j" and "var_ref_at s j x"
    by (cases rule: reported.cases) blast+
  then show False using var_ref_at_bound [of s j x] assms by simp
qed

lemma var_ref_at_last_word:
  assumes "var_ref_at s k x"
  shows "is_word (s ! (k + 4 + length x - 1))"
proof -
  from assms obtain pre post where eq: "s = pre @ str ''var.'' @ x @ post"
    and len: "length pre = k" and ne: "x \<noteq> []" and w: "\<forall>c \<in> set x. is_word c"
    unfolding var_ref_at_def by blast
  have "s = (pre @ str ''var.'') @ x @ post" using eq by simp
  moreover have "length (pre @ str ''var.'') = k + 4" using len by (simp add: str_def)
  moreover have "k + 4 + length x - 1 = (k + 4) + (length x - 1)" using ne by (cases x) auto
  ultimately have "s ! (k + 4 + length x - 1) = (x @ post) ! (length x - 1)"
    by (metis nth_append_length_plus)
  also have "\<dots> = x ! (length x - 1)" using ne by (simp add: nth_append)
  also have "\<dots> = last x" using ne by (simp add: last_conv_nth)
  finally show ?thesis using w ne by simp
qed

lemma findall_var_ref_reported:
  "k \<le> length s \<Longrightarrow> b = (0 < k \<and> is_word (s ! (k - 1))) \<Longrightarrow>
   set (findall_var_ref b (drop k s)) = {ident. \<exists>i. reported s k i ident}"
proof (induction "length s - k" arbitrary: k b rule: less_induct)
  case less
  note b = less.prems(2)
  show ?case
  proof (cases "k = length s")
    case True
    then have "drop k s = []" by simp
    moreover have "\<And>i ident. \<not> reported s k i ident"
      using reported_beyond_end [of s k] True by simp
    ultimately show ?thesis by simp
  next
    case False
    with less.prems have lt: "k < length s" by simp
    then have d: "drop k s = s ! k # drop (Suc k) s"
      by (simp add: Cons_nth_drop_Suc)
    show ?thesis
    proof (cases "\<exists>x. var_ref_at s k x")
      case True
      then obtain x where x: "var_ref_at s k x" by blast
      let ?e = "k + 4 + length x"
      have e: "?e \<le> length s" using var_ref_at_bound [OF x] .
      have nb: "\<not> b"
        using var_ref_at_match(1) [OF x] b by simp
      have m: "var_ref_match (s ! k # drop (Suc k) s) = Some (x, drop ?e s)"
        using var_ref_at_match(2) [OF x] unfolding d .
      have be: "True = (0 < ?e \<and> is_word (s ! (?e - 1)))"
        using var_ref_at_last_word [OF x] by simp
      have "findall_var_ref b (s ! k # drop (Suc k) s) = x # findall_var_ref True (drop ?e s)"
        using nb m by simp
      moreover have "length s - ?e < length s - k" using lt e by simp
      then have "set (findall_var_ref True (drop ?e s)) = {ident. \<exists>i. reported s ?e i ident}"
        using e be by (rule less.hyps)
      ultimately have "set (findall_var_ref b (drop k s)) =
          insert x {ident. \<exists>i. reported s ?e i ident}"
        unfolding d by simp
      also have "\<dots> = {ident. \<exists>i. reported s k i ident}"
        unfolding reported_match_here [OF x] by blast
      finally show ?thesis .
    next
      case False
      have "(if b then None else var_ref_match (drop k s)) = None"
      proof (rule ccontr)
        assume "(if b then None else var_ref_match (drop k s)) \<noteq> None"
        then obtain ident rest where "\<not> b" and "var_ref_match (drop k s) = Some (ident, rest)"
          by (cases b) auto
        then have "var_ref_at s k ident"
          using match_var_ref_at [OF less.prems(1)] b by blast
        with False show False by blast
      qed
      then have "findall_var_ref b (drop k s) = findall_var_ref (is_word (s ! k)) (drop (Suc k) s)"
        unfolding d by simp
      moreover have "length s - Suc k < length s - k" using lt by simp
      then have "set (findall_var_ref (is_word (s ! k)) (drop (Suc k) s)) =
                     {ident. \<exists>i. reported s (Suc k) i ident}"
        by (rule less.hyps) (use lt in simp_all)
      ultimately show ?thesis
        using reported_no_match_here [of s k] False by simp
    qed
  qed
qed

lemma findall_exact: "set (findall_var_ref False s) = {ident. \<exists>i. reported s 0 i ident}"
proof -
  have "0 \<le> length s" by simp
  moreover have "False = (0 < (0::nat) \<and> is_word (s ! (0 - 1)))" by simp
  ultimately have "set (findall_var_ref False (drop 0 s)) = {ident. \<exists>i. reported s 0 i ident}"
    by (rule findall_var_ref_reported)
  then show ?thesis by (simp only: drop_0)
qed

lemma reported_is_match:
  "reported s k i ident \<Longrightarrow> k \<le> i \<and> var_ref_at s i ident"
proof (induction rule: reported.induct)
  case (reported_here k i ident)
  then show ?case by simp
next
  case (reported_later k i ident i' ident')
  then have "k \<le> i" and "i + 4 + length ident \<le> i'" by simp_all
  then have "k \<le> i'" by simp
  then show ?case using reported_later.IH by simp
qed

lemma first_match_unique:
  assumes "k \<le> i" "no_var_ref_between s k i" "var_ref_at s i x"
    and "k \<le> j" "no_var_ref_between s k j" "var_ref_at s j y"
  shows "i = j"
proof (rule ccontr)
  assume "i \<noteq> j"
  then consider "i < j" | "j < i" by linarith
  then show False
  proof cases
    case 1
    then have "\<not> var_ref_at s i x"
      using assms(1,5) unfolding no_var_ref_between_def by blast
    then show False using assms(3) by simp
  next
    case 2
    then have "\<not> var_ref_at s j y"
      using assms(4,2) unfolding no_var_ref_between_def by blast
    then show False using assms(6) by simp
  qed
qed

text \<open>Two reported matches do not overlap: the later one starts at or after the end of the earlier.\<close>

lemma reported_disjoint:
  "reported s k i x \<Longrightarrow> reported s k j y \<Longrightarrow> i < j \<Longrightarrow> i + 4 + length x \<le> j"
proof (induction arbitrary: j y rule: reported.induct)
  case (reported_here k i x)
  from reported_here.prems(1) show ?case
  proof (cases rule: reported.cases)
    case reported_here': reported_here
    have "i = j"
      using reported_here.hyps reported_here' by (rule first_match_unique)
    then show ?thesis using reported_here.prems(2) by simp
  next
    case (reported_later m xm)
    have m: "i = m"
      using reported_here.hyps reported_later(1,2,3) by (rule first_match_unique)
    then have "xm = x"
      using reported_later(3) reported_here.hyps(3) var_ref_at_unique by blast
    then have "reported s (i + 4 + length x) j y"
      using reported_later(4) m by simp
    then show ?thesis using reported_is_match by blast
  qed
next
  case (reported_later k m xm i x)
  from reported_later.prems(1) show ?case
  proof (cases rule: reported.cases)
    case reported_here
    have "m = j"
      using reported_later.hyps(1,2,3) reported_here by (rule first_match_unique)
    moreover have "m + 4 + length xm \<le> i"
      using reported_later.hyps(4) reported_is_match by blast
    ultimately show ?thesis using reported_later.prems(2) by simp
  next
    case later: (reported_later m' xm')
    have m: "m = m'"
      using reported_later.hyps(1,2,3) later(1,2,3) by (rule first_match_unique)
    then have "xm' = xm"
      using later(3) reported_later.hyps(3) var_ref_at_unique by blast
    then have "reported s (m + 4 + length xm) j y"
      using later(4) m by simp
    then show ?thesis using reported_later.IH reported_later.prems(2) by blast
  qed
qed

lemma first_match_exists:
  assumes "var_ref_at s i x" and "k \<le> i"
  shows "\<exists>m y. k \<le> m \<and> m \<le> i \<and> var_ref_at s m y \<and> no_var_ref_between s k m"
proof -
  define P where "P m \<longleftrightarrow> k \<le> m \<and> (\<exists>y. var_ref_at s m y)" for m
  have "P i" using assms unfolding P_def by blast
  define m where "m = (LEAST m. P m)"
  have Pm: "P m" unfolding m_def using \<open>P i\<close> by (rule LeastI)
  have le: "m \<le> i" unfolding m_def using \<open>P i\<close> by (rule Least_le)
  have "no_var_ref_between s k m"
    unfolding no_var_ref_between_def
  proof (intro allI impI)
    fix j z
    assume j: "k \<le> j \<and> j < m"
    show "\<not> var_ref_at s j z"
    proof
      assume "var_ref_at s j z"
      then have "P j" using j unfolding P_def by blast
      then have "m \<le> j" unfolding m_def by (rule Least_le)
      then show False using j by simp
    qed
  qed
  then show ?thesis using Pm le unfolding P_def by blast
qed

text \<open>
  The scan misses no match but those it has passed over: a match of the pattern is
  reported, or it starts inside a reported match that starts before it.
\<close>

lemma reported_or_overlapped:
  "var_ref_at s i x \<Longrightarrow> k \<le> i \<Longrightarrow>
   reported s k i x \<or> (\<exists>j y. reported s k j y \<and> j < i \<and> i < j + 4 + length y)"
proof (induction "i - k" arbitrary: k rule: less_induct)
  case less
  obtain m y where m: "k \<le> m" "m \<le> i" "var_ref_at s m y" "no_var_ref_between s k m"
    using first_match_exists [OF less.prems] by blast
  have here: "reported s k m y"
    using m(1,4,3) by (rule reported.reported_here)
  show ?case
  proof (cases "m = i")
    case True
    then have "y = x" using m(3) less.prems(1) var_ref_at_unique by blast
    then show ?thesis using here True by simp
  next
    case False
    then have lt: "m < i" using m(2) by simp
    show ?thesis
    proof (cases "i < m + 4 + length y")
      case True
      then show ?thesis using here lt by blast
    next
      case False
      then have e: "m + 4 + length y \<le> i" by simp
      then have "i - (m + 4 + length y) < i - k" using m(1) lt by simp
      then have "reported s (m + 4 + length y) i x \<or>
          (\<exists>j z. reported s (m + 4 + length y) j z \<and> j < i \<and> i < j + 4 + length z)"
        using less.prems(1) e by (rule less.hyps)
      then show ?thesis
      proof
        assume "reported s (m + 4 + length y) i x"
        with m(1,4,3) have "reported s k i x" by (rule reported.reported_later)
        then show ?thesis by simp
      next
        assume "\<exists>j z. reported s (m + 4 + length y) j z \<and> j < i \<and> i < j + 4 + length z"
        then obtain j z where j: "reported s (m + 4 + length y) j z" "j < i" "i < j + 4 + length z"
          by blast
        from m(1,4,3) j(1) have "reported s k j z" by (rule reported.reported_later)
        then show ?thesis using j(2,3) by blast
      qed
    qed
  qed
qed

section \<open>The reference extractor\<close>

text \<open>
  Claim C7. On a file that can be read, \<open>parse_used_vars_from_tf\<close> returns exactly the
  identifiers of the non-overlapping matches of \<^verbatim>\<open>var.<identifier>\<close> found from left to
  right in the text. Every reported match is a match in the sense of \<open>var_ref_at\<close>: it is
  preceded by the start of the text or by a character that is not a word character, and
  its identifier is a non-empty run of letters, digits and underscores. The result does
  not depend on the structured parsers: the pass never calls them, so no malformed
  structured syntax can make it fail.
\<close>

theorem reference_extractor_exact:
  assumes "read_text env path = Inr txt"
  shows "parse_used_vars_from_tf env path = Inr {ident. \<exists>i. reported txt 0 i ident} \<and>
         (\<forall>i ident. reported txt 0 i ident \<longrightarrow> var_ref_at txt i ident) \<and>
         parse_used_vars_from_tf (env\<lparr>hcl2_loads := h, json_loads := j\<rparr>) path =
           parse_used_vars_from_tf env path"
proof (intro conjI allI impI)
  show "parse_used_vars_from_tf env path = Inr {ident. \<exists>i. reported txt 0 i ident}"
    using assms by (simp add: parse_used_vars_from_tf_def findall_exact)
  show "var_ref_at txt i ident" if "reported txt 0 i ident" for i ident
    using that reported_is_match by blast
  show "parse_used_vars_from_tf (env\<lparr>hcl2_loads := h, json_loads := j\<rparr>) path =
          parse_used_vars_from_tf env path"
    by (simp add: parse_used_vars_from_tf_def)
qed

text \<open>
  On the example tree: \<^verbatim>\<open>main.tf\<close> holds \<^verbatim>\<open>var.region\<close>, \<^verbatim>\<open>var.project_id\<close> and
  \<^verbatim>\<open>myvar.x\<close>; the last one contributes nothing.
\<close>

theorem reference_extractor_exact_witness:
  "read_text example_tree (str ''main.tf'') = Inr main_tf \<and>
   {ident. \<exists>i. reported main_tf 0 i ident} = {str ''region'', str ''project_id''} \<and>
   str ''x'' \<notin> {ident. \<exists>i. reported main_tf 0 i ident}"
proof -
  have r: "read_text example_tree (str ''main.tf'') = Inr main_tf"
    by (simp add: example_defs str_def)
  have "parse_used_vars_from_tf example_tree (str ''main.tf'') =
          Inr {str ''region'', str ''project_id''}"
    by (simp add: parse_used_vars_from_tf_def example_defs str_def var_ref_match_def is_word_def)
  then have eq: "{ident. \<exists>i. reported main_tf 0 i ident} = {str ''region'', str ''project_id''}"
    using reference_extractor_exact [OF r] by simp
  have "str ''x'' \<notin> {str ''region'', str ''project_id''}"
    by (simp add: str_def)
  then show ?thesis using r eq by simp
qed

section \<open>Facts about the extractors and the loops of a run\<close>

lemmas run_defs = scan_def tf_step_def tfvars_step_def parse_declared_vars_from_tf_def
  parse_used_vars_from_tf_def parse_tfvars_def try_keys_def hcl_load_def json_load_def
  regex_fallback_def declared_from_data_def block_declared_def load_ignorelist_def
  splitlines_def strip_def

lemmas class_defs = is_word_def is_space_def is_linebreak_def var_ref_match_def
  variable_decl_match_def Let_def

lemma example_scan:
  "scan example_tree =
     Inr ({str ''region'', str ''env'', str ''legacy'', str ''alpha''},
          {str ''region'', str ''project_id''},
          {str ''region'', str ''extra_flag''}, {str ''legacy'', str ''extra_flag''})"
  by (simp add: run_defs class_defs filter_defs example_defs str_def insert_commute)

lemma clean_scan: "scan clean_tree = Inr ({str ''a''}, {str ''a''}, {}, {})"
  by (simp add: run_defs class_defs filter_defs clean_tree_def str_def)

lemma try_keys_Inr: "\<exists>keys. try_keys loaded = Inr keys \<and> finite keys"
  by (cases loaded; cases "keys_if_dict (projr loaded)") (auto simp: try_keys_def elim: keys_if_dict.elims)


lemma keys_if_dict_finite: "keys_if_dict obj = Some keys \<Longrightarrow> finite keys"
  by (cases obj) auto

lemma parse_tfvars_Inr: "\<exists>keys. parse_tfvars env path = Inr keys \<and> finite keys"
  unfolding parse_tfvars_def using try_keys_Inr by simp

lemma tfvars_step_Inr: "\<exists>keys'. tfvars_step env path keys = Inr keys' \<and> keys \<subseteq> keys'"
proof (cases "should_skip path")
  case True
  then show ?thesis by (simp add: tfvars_step_def)
next
  case False
  obtain k where "parse_tfvars env path = Inr k" using parse_tfvars_Inr by blast
  then show ?thesis using False by (simp add: tfvars_step_def)
qed

lemma collect_tfvars_Inr: "\<exists>keys'. collect_tfvars env paths keys = Inr keys' \<and> keys \<subseteq> keys'"
proof (induction paths arbitrary: keys)
  case Nil
  then show ?case by simp
next
  case (Cons path paths)
  obtain k1 where k1: "tfvars_step env path keys = Inr k1" "keys \<subseteq> k1"
    using tfvars_step_Inr by blast
  obtain k2 where "collect_tfvars env paths k1 = Inr k2" "k1 \<subseteq> k2"
    using Cons.IH by blast
  then show ?case using k1 by auto
qed

lemma tf_step_cases:
  assumes "tf_step env path (d, u) = Inr (d', u')"
  shows "(should_skip path \<and> d' = d \<and> u' = u) \<or>
         (\<exists>dd uu. parse_declared_vars_from_tf env path = Inr dd \<and>
            parse_used_vars_from_tf env path = Inr uu \<and> d' = d \<union> dd \<and> u' = u \<union> uu)"
  using assms by (auto simp: tf_step_def split: if_splits sum.splits)

lemma tf_step_mono:
  assumes "tf_step env path acc = Inr acc'"
  shows "fst acc \<subseteq> fst acc' \<and> snd acc \<subseteq> snd acc'"
  using assms by (auto simp: tf_step_def split: if_splits sum.splits)

lemma collect_tf_mono:
  "collect_tf env paths acc = Inr acc' \<Longrightarrow> fst acc \<subseteq> fst acc' \<and> snd acc \<subseteq> snd acc'"
proof (induction paths arbitrary: acc)
  case Nil
  then show ?case by simp
next
  case (Cons path paths)
  then obtain mid where mid: "tf_step env path acc = Inr mid" "collect_tf env paths mid = Inr acc'"
    by (auto split: sum.splits)
  have "fst acc \<subseteq> fst mid \<and> snd acc \<subseteq> snd mid" using mid(1) by (rule tf_step_mono)
  moreover have "fst mid \<subseteq> fst acc' \<and> snd mid \<subseteq> snd acc'" using mid(2) by (rule Cons.IH)
  ultimately show ?case by blast
qed

lemma collect_tf_prefix:
  assumes "collect_tf env (ps @ qs) acc = Inr acc'"
  shows "\<exists>mid. collect_tf env ps acc = Inr mid \<and>
           fst acc \<subseteq> fst mid \<and> snd acc \<subseteq> snd mid \<and> fst mid \<subseteq> fst acc' \<and> snd mid \<subseteq> snd acc'"
proof -
  from assms obtain mid where mid: "collect_tf env ps acc = Inr mid" "collect_tf env qs mid = Inr acc'"
    unfolding collect_tf_append by (auto split: sum.splits)
  then show ?thesis using collect_tf_mono by blast
qed

lemma collect_tfvars_prefix:
  assumes "collect_tfvars env (ps @ qs) keys = Inr keys'"
  shows "\<exists>mid. collect_tfvars env ps keys = Inr mid \<and> keys \<subseteq> mid \<and> mid \<subseteq> keys'"
proof -
  from assms obtain mid where mid: "collect_tfvars env ps keys = Inr mid"
      "collect_tfvars env qs mid = Inr keys'"
    unfolding collect_tfvars_append by (auto split: sum.splits)
  then show ?thesis using collect_tfvars_Inr [of env ps keys] collect_tfvars_Inr [of env qs mid]
    by auto
qed

lemma scan_Inr:
  assumes "scan env = Inr (d, u, k, ig)"
  shows "\<exists>k1. collect_tf env (glob_tf env) ({}, {}) = Inr (d, u) \<and>
           collect_tfvars env (glob_tfvars env) {} = Inr k1 \<and>
           collect_tfvars env (glob_tfvars_json env) k1 = Inr k \<and>
           load_ignorelist env = Inr ig"
  using assms by (auto simp: scan_def split: sum.splits)

section \<open>The override extractor\<close>



section \<open>The accumulators\<close>

text \<open>
  Claim C9. Processing one file leaves each accumulator unchanged (the file is skipped) or
  replaces it by its union with what the extractors return for that file. Hence, in a
  run that reaches the comparison with the sets \<open>d\<close>, \<open>u\<close> and \<open>k\<close>, the accumulators
  after any initial part of a loop's list of paths exist, contain what they held before,
  and are contained in the final sets; the second override loop starts from the result of
  the first.
\<close>

theorem accumulators_only_grow:
  assumes "scan env = Inr (d, u, k, ig)"
  shows "(\<forall>ps qs. glob_tf env = ps @ qs \<longrightarrow>
            (\<exists>dm um. collect_tf env ps ({}, {}) = Inr (dm, um) \<and> dm \<subseteq> d \<and> um \<subseteq> u)) \<and>
         (\<exists>k1. collect_tfvars env (glob_tfvars env) {} = Inr k1 \<and> k1 \<subseteq> k \<and>
            (\<forall>ps qs. glob_tfvars env = ps @ qs \<longrightarrow>
               (\<exists>km. collect_tfvars env ps {} = Inr km \<and> km \<subseteq> k1)) \<and>
            (\<forall>ps qs. glob_tfvars_json env = ps @ qs \<longrightarrow>
               (\<exists>km. collect_tfvars env ps k1 = Inr km \<and> k1 \<subseteq> km \<and> km \<subseteq> k))) \<and>
         (\<forall>path a b a' b'. tf_step env path (a, b) = Inr (a', b') \<longrightarrow>
            a \<subseteq> a' \<and> b \<subseteq> b' \<and>
            ((a' = a \<and> b' = b) \<or>
             (\<exists>dd uu. parse_declared_vars_from_tf env path = Inr dd \<and>
                parse_used_vars_from_tf env path = Inr uu \<and> a' = a \<union> dd \<and> b' = b \<union> uu))) \<and>
         (\<forall>path c c'. tfvars_step env path c = Inr c' \<longrightarrow>
            c \<subseteq> c' \<and> (c' = c \<or> (\<exists>kk. parse_tfvars env path = Inr kk \<and> c' = c \<union> kk)))"
proof -
  obtain k1 where tf: "collect_tf env (glob_tf env) ({}, {}) = Inr (d, u)"
    and v1: "collect_tfvars env (glob_tfvars env) {} = Inr k1"
    and v2: "collect_tfvars env (glob_tfvars_json env) k1 = Inr k"
    using scan_Inr [OF assms] by blast
  have A: "\<exists>dm um. collect_tf env ps ({}, {}) = Inr (dm, um) \<and> dm \<subseteq> d \<and> um \<subseteq> u"
    if "glob_tf env = ps @ qs" for ps qs
  proof -
    have "collect_tf env (ps @ qs) ({}, {}) = Inr (d, u)" using tf that by simp
    then obtain mid where mid: "collect_tf env ps ({}, {}) = Inr mid"
        "fst mid \<subseteq> fst (d, u)" "snd mid \<subseteq> snd (d, u)"
      using collect_tf_prefix [of env ps qs "({}, {})" "(d, u)"] by blast
    obtain dm um where "mid = (dm, um)" by (cases mid)
    then show ?thesis using mid by simp
  qed
  have k1k: "k1 \<subseteq> k" using v2 collect_tfvars_Inr [of env "glob_tfvars_json env" k1] by auto
  have B: "\<exists>km. collect_tfvars env ps {} = Inr km \<and> km \<subseteq> k1"
    if "glob_tfvars env = ps @ qs" for ps qs
  proof -
    have "collect_tfvars env (ps @ qs) {} = Inr k1" using v1 that by simp
    then show ?thesis using collect_tfvars_prefix by blast
  qed
  have C: "\<exists>km. collect_tfvars env ps k1 = Inr km \<and> k1 \<subseteq> km \<and> km \<subseteq> k"
    if "glob_tfvars_json env = ps @ qs" for ps qs
  proof -
    have "collect_tfvars env (ps @ qs) k1 = Inr k" using v2 that by simp
    then show ?thesis using collect_tfvars_prefix by blast
  qed
  have D: "a \<subseteq> a' \<and> b \<subseteq> b' \<and>
            ((a' = a \<and> b' = b) \<or>
             (\<exists>dd uu. parse_declared_vars_from_tf env path = Inr dd \<and>
                parse_used_vars_from_tf env path = Inr uu \<and> a' = a \<union> dd \<and> b' = b \<union> uu))"
    if "tf_step env path (a, b) = Inr (a', b')" for path a b a' b'
    using tf_step_cases [OF that] tf_step_mono [OF that] by auto
  have E: "c \<subseteq> c' \<and> (c' = c \<or> (\<exists>kk. parse_tfvars env path = Inr kk \<and> c' = c \<union> kk))"
    if "tfvars_step env path c = Inr c'" for path c c'
    using that by (auto simp: tfvars_step_def split: if_splits sum.splits)
  have F: "\<exists>k1. collect_tfvars env (glob_tfvars env) {} = Inr k1 \<and> k1 \<subseteq> k \<and>
            (\<forall>ps qs. glob_tfvars env = ps @ qs \<longrightarrow>
               (\<exists>km. collect_tfvars env ps {} = Inr km \<and> km \<subseteq> k1)) \<and>
            (\<forall>ps qs. glob_tfvars_json env = ps @ qs \<longrightarrow>
               (\<exists>km. collect_tfvars env ps k1 = Inr km \<and> k1 \<subseteq> km \<and> km \<subseteq> k))"
  proof -
    have B': "\<forall>ps qs. glob_tfvars env = ps @ qs \<longrightarrow>
               (\<exists>km. collect_tfvars env ps {} = Inr km \<and> km \<subseteq> k1)"
      using B by (intro allI impI)
    have C': "\<forall>ps qs. glob_tfvars_json env = ps @ qs \<longrightarrow>
               (\<exists>km. collect_tfvars env ps k1 = Inr km \<and> k1 \<subseteq> km \<and> km \<subseteq> k)"
      using C by (intro allI impI)
    show ?thesis
      by (rule exI [of _ k1]) (intro conjI v1 k1k B' C')
  qed
  show ?thesis
  proof (intro conjI)
    show "\<forall>ps qs. glob_tf env = ps @ qs \<longrightarrow>
            (\<exists>dm um. collect_tf env ps ({}, {}) = Inr (dm, um) \<and> dm \<subseteq> d \<and> um \<subseteq> u)"
      using A by (intro allI impI)
    show "\<exists>k1. collect_tfvars env (glob_tfvars env) {} = Inr k1 \<and> k1 \<subseteq> k \<and>
            (\<forall>ps qs. glob_tfvars env = ps @ qs \<longrightarrow>
               (\<exists>km. collect_tfvars env ps {} = Inr km \<and> km \<subseteq> k1)) \<and>
            (\<forall>ps qs. glob_tfvars_json env = ps @ qs \<longrightarrow>
               (\<exists>km. collect_tfvars env ps k1 = Inr km \<and> k1 \<subseteq> km \<and> km \<subseteq> k))"
      by (rule F)
    show "\<forall>path a b a' b'. tf_step env path (a, b) = Inr (a', b') \<longrightarrow>
            a \<subseteq> a' \<and> b \<subseteq> b' \<and>
            ((a' = a \<and> b' = b) \<or>
             (\<exists>dd uu. parse_declared_vars_from_tf env path = Inr dd \<and>
                parse_used_vars_from_tf env path = Inr uu \<and> a' = a \<union> dd \<and> b' = b \<union> uu))"
      using D by (intro allI impI)
    show "\<forall>path c c'. tfvars_step env path c = Inr c' \<longrightarrow>
            c \<subseteq> c' \<and> (c' = c \<or> (\<exists>kk. parse_tfvars env path = Inr kk \<and> c' = c \<union> kk))"
      using E by (intro allI impI)
  qed
qed

text \<open>
  On the example tree: after the first two files of the first loop the accumulators hold
  what these files declare and use, and both are contained in the final sets.
\<close>

theorem accumulators_only_grow_witness:
  "glob_tf example_tree = [str ''variables.tf'', str ''main.tf''] @ [str ''broken.tf'', vendor_path] \<and>
   (\<exists>dm um. collect_tf example_tree [str ''variables.tf'', str ''main.tf''] ({}, {}) = Inr (dm, um) \<and>
      dm \<subseteq> {str ''region'', str ''env'', str ''legacy'', str ''alpha''} \<and>
      um \<subseteq> {str ''region'', str ''project_id''})"
proof -
  have g: "glob_tf example_tree =
      [str ''variables.tf'', str ''main.tf''] @ [str ''broken.tf'', vendor_path]"
    by (simp add: example_tree_def)
  have "\<forall>ps qs. glob_tf example_tree = ps @ qs \<longrightarrow>
          (\<exists>dm um. collect_tf example_tree ps ({}, {}) = Inr (dm, um) \<and>
             dm \<subseteq> {str ''region'', str ''env'', str ''legacy'', str ''alpha''} \<and>
             um \<subseteq> {str ''region'', str ''project_id''})"
    using accumulators_only_grow [OF example_scan] by (rule conjunct1)
  then have "glob_tf example_tree =
        [str ''variables.tf'', str ''main.tf''] @ [str ''broken.tf'', vendor_path] \<longrightarrow>
      (\<exists>dm um. collect_tf example_tree [str ''variables.tf'', str ''main.tf''] ({}, {}) = Inr (dm, um) \<and>
        dm \<subseteq> {str ''region'', str ''env'', str ''legacy'', str ''alpha''} \<and>
        um \<subseteq> {str ''region'', str ''project_id''})"
    by (elim allE)
  then have "\<exists>dm um. collect_tf example_tree [str ''variables.tf'', str ''main.tf''] ({}, {}) = Inr (dm, um) \<and>
      dm \<subseteq> {str ''region'', str ''env'', str ''legacy'', str ''alpha''} \<and>
      um \<subseteq> {str ''region'', str ''project_id''}"
    using g by (rule mp)
  with g show ?thesis by (rule conjI)
qed

section \<open>The sets of a run are finite\<close>

lemma finite_entry_names: "finite (entry_names entry)"
  by (cases entry) auto

lemma finite_fold_entry_names:
  "finite acc \<Longrightarrow> finite (fold (\<lambda>entry acc. acc \<union> entry_names entry) entries acc)"
  by (induction entries arbitrary: acc) (auto simp: finite_entry_names)

lemma block_declared_finite:
  "block_declared blk acc = Inr acc' \<Longrightarrow> finite acc \<Longrightarrow> finite acc'"
  by (auto simp: block_declared_def finite_fold_entry_names split: sum.splits if_splits)

lemma blocks_declared_finite:
  "blocks_declared blks acc = Inr acc' \<Longrightarrow> finite acc \<Longrightarrow> finite acc'"
proof (induction blks arbitrary: acc)
  case Nil
  then show ?case by simp
next
  case (Cons blk blks)
  then obtain mid where mid: "block_declared blk acc = Inr mid"
      "blocks_declared blks mid = Inr acc'"
    by (auto split: sum.splits)
  have "finite mid" using mid(1) Cons.prems(2) by (rule block_declared_finite)
  with mid(2) show ?case by (rule Cons.IH)
qed

lemma parse_declared_finite:
  assumes "parse_declared_vars_from_tf env path = Inr dd"
  shows "finite dd"
proof (cases "hcl_load env path")
  case (Inl e)
  then have "regex_fallback env path = Inr dd"
    using assms by (simp add: parse_declared_vars_from_tf_def)
  then show ?thesis by (auto simp: regex_fallback_def split: sum.splits)
next
  case (Inr data)
  then have "blocks_declared (blocks_of data) {} = Inr dd"
    using assms by (simp add: parse_declared_vars_from_tf_def declared_from_data_def)
  then show ?thesis using blocks_declared_finite by blast
qed

lemma parse_used_finite: "parse_used_vars_from_tf env path = Inr uu \<Longrightarrow> finite uu"
  by (auto simp: parse_used_vars_from_tf_def split: sum.splits)

lemma tf_step_finite:
  assumes "tf_step env path acc = Inr acc'" and "finite (fst acc)" and "finite (snd acc)"
  shows "finite (fst acc') \<and> finite (snd acc')"
proof -
  obtain a b a' b' where acc: "acc = (a, b)" "acc' = (a', b')"
    by (cases acc, cases acc') auto
  then have "tf_step env path (a, b) = Inr (a', b')" using assms(1) by simp
  then show ?thesis
    using tf_step_cases parse_declared_finite parse_used_finite assms(2,3) acc by fastforce
qed

lemma collect_tf_finite:
  "collect_tf env paths acc = Inr acc' \<Longrightarrow> finite (fst acc) \<Longrightarrow> finite (snd acc) \<Longrightarrow>
   finite (fst acc') \<and> finite (snd acc')"
proof (induction paths arbitrary: acc)
  case Nil
  then show ?case by simp
next
  case (Cons path paths)
  then obtain mid where mid: "tf_step env path acc = Inr mid" "collect_tf env paths mid = Inr acc'"
    by (auto split: sum.splits)
  have "finite (fst mid) \<and> finite (snd mid)"
    using mid(1) Cons.prems(2,3) by (rule tf_step_finite)
  then show ?case using Cons.IH [OF mid(2)] by blast
qed

lemma tfvars_step_finite:
  "tfvars_step env path keys = Inr keys' \<Longrightarrow> finite keys \<Longrightarrow> finite keys'"
  using parse_tfvars_Inr [of env path]
  by (auto simp: tfvars_step_def split: if_splits sum.splits)

lemma collect_tfvars_finite:
  "collect_tfvars env paths keys = Inr keys' \<Longrightarrow> finite keys \<Longrightarrow> finite keys'"
proof (induction paths arbitrary: keys)
  case Nil
  then show ?case by simp
next
  case (Cons path paths)
  then obtain mid where mid: "tfvars_step env path keys = Inr mid"
      "collect_tfvars env paths mid = Inr keys'"
    by (auto split: sum.splits)
  have "finite mid" using mid(1) Cons.prems(2) by (rule tfvars_step_finite)
  with mid(2) show ?case by (rule Cons.IH)
qed

lemma load_ignorelist_finite: "load_ignorelist env = Inr ig \<Longrightarrow> finite ig"
  by (auto simp: load_ignorelist_def split: option.splits sum.splits)

lemma scan_finite:
  assumes "scan env = Inr (d, u, k, ig)"
  shows "finite d \<and> finite u \<and> finite k \<and> finite ig"
proof -
  obtain k1 where tf: "collect_tf env (glob_tf env) ({}, {}) = Inr (d, u)"
    and v1: "collect_tfvars env (glob_tfvars env) {} = Inr k1"
    and v2: "collect_tfvars env (glob_tfvars_json env) k1 = Inr k"
    and ig: "load_ignorelist env = Inr ig"
    using scan_Inr [OF assms] by blast
  have "finite (fst (d, u)) \<and> finite (snd (d, u))"
    using tf by (rule collect_tf_finite) simp_all
  moreover have "finite k1" using v1 by (rule collect_tfvars_finite) simp
  then have "finite k" using v2 collect_tfvars_finite by blast
  moreover have "finite ig" using ig by (rule load_ignorelist_finite)
  ultimately show ?thesis by simp
qed

lemma main_state_scan:
  "scan env = Inr sets \<Longrightarrow> main_state env = Inr (compare_sets sets)"
  by (simp add: main_state_def)

lemma compare_sets_fields:
  "declared (compare_sets (d, u, k, ig)) = d"
  "used (compare_sets (d, u, k, ig)) = u"
  "tfvars_keys (compare_sets (d, u, k, ig)) = k"
  "ignore (compare_sets (d, u, k, ig)) = ig"
  "unused (compare_sets (d, u, k, ig)) = sorted_list_of_set ((d - u) - ig)"
  "missing (compare_sets (d, u, k, ig)) = sorted_list_of_set ((u - d) - ig)"
  "tfvars_extra (compare_sets (d, u, k, ig)) = sorted_list_of_set ((k - d) - ig)"
  by (simp_all add: compare_sets_def Let_def)

lemma compare_sets_status:
  "status (compare_sets sets) =
     (if unused (compare_sets sets) = [] \<and> missing (compare_sets sets) = [] \<and>
         tfvars_extra (compare_sets sets) = [] then 0 else 1)"
  by (cases sets) (simp add: compare_sets_def Let_def)

lemma ex_unused:
  "sorted_list_of_set
       (({str ''region'', str ''env'', str ''legacy'', str ''alpha''} -
         {str ''region'', str ''project_id''}) - {str ''legacy'', str ''extra_flag''}) = [str ''alpha'', str ''env'']"
  by (simp add: str_def insert_Diff_if)

lemma ex_missing:
  "sorted_list_of_set
       (({str ''region'', str ''project_id''} -
         {str ''region'', str ''env'', str ''legacy'', str ''alpha''}) -
        {str ''legacy'', str ''extra_flag''}) = [str ''project_id'']"
  by (simp add: str_def insert_Diff_if)

lemma ex_extra:
  "sorted_list_of_set
       (({str ''region'', str ''extra_flag''} -
         {str ''region'', str ''env'', str ''legacy'', str ''alpha''}) -
        {str ''legacy'', str ''extra_flag''}) = []"
  by (simp add: str_def insert_Diff_if)

section \<open>The three drift categories\<close>

text \<open>
  Claim C2. When a run reaches the comparison with the declared set \<open>d\<close>, the used set
  \<open>u\<close>, the override keys \<open>k\<close> and the ignore set \<open>ig\<close>, \<open>main\<close> completes, and its three
  lists are the sorted lists of \<open>(d - u) - ig\<close>, \<open>(u - d) - ig\<close> and \<open>(k - d) - ig\<close>: each
  list is strictly ascending (sorted, no element twice) and has exactly the elements of
  its set.
\<close>

theorem drift_categories_exact:
  assumes "scan env = Inr (d, u, k, ig)"
  shows "\<exists>r. main_state env = Inr r \<and>
           declared r = d \<and> used r = u \<and> tfvars_keys r = k \<and> ignore r = ig \<and>
           unused r = sorted_list_of_set ((d - u) - ig) \<and>
           missing r = sorted_list_of_set ((u - d) - ig) \<and>
           tfvars_extra r = sorted_list_of_set ((k - d) - ig) \<and>
           sorted_wrt (<) (unused r) \<and> set (unused r) = (d - u) - ig \<and>
           sorted_wrt (<) (missing r) \<and> set (missing r) = (u - d) - ig \<and>
           sorted_wrt (<) (tfvars_extra r) \<and> set (tfvars_extra r) = (k - d) - ig"
proof -
  have fin: "finite d" "finite u" "finite k"
    using scan_finite [OF assms] by simp_all
  have "main_state env = Inr (compare_sets (d, u, k, ig))"
    using assms by (rule main_state_scan)
  moreover have "set (sorted_list_of_set ((d - u) - ig)) = (d - u) - ig"
    using fin by simp
  moreover have "set (sorted_list_of_set ((u - d) - ig)) = (u - d) - ig"
    using fin by simp
  moreover have "set (sorted_list_of_set ((k - d) - ig)) = (k - d) - ig"
    using fin by simp
  ultimately show ?thesis
    by (intro exI [of _ "compare_sets (d, u, k, ig)"])
       (simp add: compare_sets_fields strict_sorted_list_of_set)
qed

text \<open>
  On the example tree: \<open>alpha\<close> and \<open>env\<close> are declared and unused (in that order, though
  \<open>env\<close> is declared first), \<open>project_id\<close> is used and not declared, and the only
  undeclared override key is ignored.
\<close>

theorem drift_categories_exact_witness:
  "\<exists>r. main_state example_tree = Inr r \<and>
     unused r = [str ''alpha'', str ''env''] \<and> missing r = [str ''project_id''] \<and>
     tfvars_extra r = []"
proof -
  from drift_categories_exact [OF example_scan]
  obtain r where r: "main_state example_tree = Inr r \<and>
      declared r = {str ''region'', str ''env'', str ''legacy'', str ''alpha''} \<and>
      used r = {str ''region'', str ''project_id''} \<and>
      tfvars_keys r = {str ''region'', str ''extra_flag''} \<and>
      ignore r = {str ''legacy'', str ''extra_flag''} \<and>
      unused r = sorted_list_of_set
       (({str ''region'', str ''env'', str ''legacy'', str ''alpha''} -
         {str ''region'', str ''project_id''}) - {str ''legacy'', str ''extra_flag''}) \<and>
      missing r = sorted_list_of_set
       (({str ''region'', str ''project_id''} -
         {str ''region'', str ''env'', str ''legacy'', str ''alpha''}) -
        {str ''legacy'', str ''extra_flag''}) \<and>
      tfvars_extra r = sorted_list_of_set
       (({str ''region'', str ''extra_flag''} -
         {str ''region'', str ''env'', str ''legacy'', str ''alpha''}) -
        {str ''legacy'', str ''extra_flag''}) \<and>
      sorted_wrt (<) (unused r) \<and>
      set (unused r) =
        ({str ''region'', str ''env'', str ''legacy'', str ''alpha''} -
         {str ''region'', str ''project_id''}) - {str ''legacy'', str ''extra_flag''} \<and>
      sorted_wrt (<) (missing r) \<and>
      set (missing r) =
        ({str ''region'', str ''project_id''} -
         {str ''region'', str ''env'', str ''legacy'', str ''alpha''}) -
        {str ''legacy'', str ''extra_flag''} \<and>
      sorted_wrt (<) (tfvars_extra r) \<and>
      set (tfvars_extra r) =
        ({str ''region'', str ''extra_flag''} -
         {str ''region'', str ''env'', str ''legacy'', str ''alpha''}) -
        {str ''legacy'', str ''extra_flag''}"
    by (rule exE)
  have m: "main_state example_tree = Inr r" using r by (rule conjunct1)
  have "unused r = [str ''alpha'', str ''env'']"
    using r by (simp only: ex_unused)
  moreover have "missing r = [str ''project_id'']"
    using r by (simp only: ex_missing)
  moreover have "tfvars_extra r = []"
    using r by (simp only: ex_extra)
  ultimately show ?thesis using m by (intro exI [of _ r] conjI)
qed

section \<open>The ignore list\<close>

text \<open>
  Claim C4. When a run reaches the comparison, no symbol of the ignore set is in any of
  the three lists, whatever the declared, used and override sets hold.
\<close>

theorem ignored_symbol_in_no_category:
  assumes "scan env = Inr (d, u, k, ig)" and "s \<in> ig"
  shows "\<exists>r. main_state env = Inr r \<and> ignore r = ig \<and>
           s \<notin> set (unused r) \<and> s \<notin> set (missing r) \<and> s \<notin> set (tfvars_extra r)"
proof -
  have fin: "finite d" "finite u" "finite k"
    using scan_finite [OF assms(1)] by simp_all
  have "main_state env = Inr (compare_sets (d, u, k, ig))"
    using assms(1) by (rule main_state_scan)
  moreover have "s \<notin> set (sorted_list_of_set ((d - u) - ig))"
    using fin assms(2) by simp
  moreover have "s \<notin> set (sorted_list_of_set ((u - d) - ig))"
    using fin assms(2) by simp
  moreover have "s \<notin> set (sorted_list_of_set ((k - d) - ig))"
    using fin assms(2) by simp
  ultimately show ?thesis
    by (intro exI [of _ "compare_sets (d, u, k, ig)"]) (simp add: compare_sets_fields)
qed

text \<open>
  On the example tree: \<open>legacy\<close> is declared and never used, \<open>extra_flag\<close> is an override
  key that is not declared; both are ignored and appear in no list.
\<close>

theorem ignored_symbol_in_no_category_witness:
  "\<exists>r. main_state example_tree = Inr r \<and>
     str ''legacy'' \<in> declared r - used r \<and> str ''legacy'' \<notin> set (unused r) \<and>
     str ''extra_flag'' \<in> tfvars_keys r - declared r \<and> str ''extra_flag'' \<notin> set (tfvars_extra r)"
proof -
  have a: "str ''legacy'' \<in> {str ''legacy'', str ''extra_flag''}" by simp
  have b: "str ''extra_flag'' \<in> {str ''legacy'', str ''extra_flag''}" by simp
  obtain r where r: "main_state example_tree = Inr r" "str ''legacy'' \<notin> set (unused r)"
    using ignored_symbol_in_no_category [OF example_scan a] by blast
  obtain r' where r': "main_state example_tree = Inr r'" "str ''extra_flag'' \<notin> set (tfvars_extra r')"
    using ignored_symbol_in_no_category [OF example_scan b] by blast
  have eq: "r' = r" using r(1) r'(1) by simp
  have st: "r = compare_sets ({str ''region'', str ''env'', str ''legacy'', str ''alpha''},
          {str ''region'', str ''project_id''},
          {str ''region'', str ''extra_flag''}, {str ''legacy'', str ''extra_flag''})"
    using r(1) main_state_scan [OF example_scan] by simp
  have "str ''legacy'' \<in> declared r - used r"
    unfolding st compare_sets_fields by (simp add: str_def)
  moreover have "str ''extra_flag'' \<in> tfvars_keys r - declared r"
    unfolding st compare_sets_fields by (simp add: str_def)
  ultimately show ?thesis using r r' eq by blast
qed

section \<open>The exit status\<close>

text \<open>
  Claim C3. The process exits with status 2 exactly when \<^verbatim>\<open>hcl2\<close> cannot be imported, and
  then whatever the tree holds: nothing is scanned. It exits with status 0 exactly when
  \<^verbatim>\<open>hcl2\<close> is there and \<open>main\<close> completes with three empty lists, and with status 1
  whenever \<open>main\<close> completes with a list that is not empty. A run in which \<open>main\<close>
  raises computes no category and ends uncaught.
\<close>

theorem exit_status:
  "(program installed env = Exit 2 \<longleftrightarrow> \<not> installed) \<and>
   (program installed env = Exit 0 \<longleftrightarrow>
      installed \<and> (\<exists>r. main_state env = Inr r \<and>
         unused r = [] \<and> missing r = [] \<and> tfvars_extra r = [])) \<and>
   (installed \<and> main_state env = Inr r \<and>
      (unused r \<noteq> [] \<or> missing r \<noteq> [] \<or> tfvars_extra r \<noteq> []) \<longrightarrow>
      program installed env = Exit 1) \<and>
   (\<forall>env'. program False env' = Exit 2)"
proof -
  have st: "status r' = (if unused r' = [] \<and> missing r' = [] \<and> tfvars_extra r' = [] then 0 else 1)"
    if "main_state env = Inr r'" for r'
  proof -
    from that obtain sets where "r' = compare_sets sets"
      by (auto simp: main_state_def split: sum.splits)
    then show ?thesis using compare_sets_status by simp
  qed
  show ?thesis
  proof (cases "main_state env")
    case (Inl e)
    then show ?thesis by (simp add: program_def main_def)
  next
    case (Inr r')
    then show ?thesis using st [OF Inr] by (auto simp: program_def main_def)
  qed
qed

text \<open>
  On the two trees: the example tree has drift and exits with 1, the clean tree exits
  with 0, and without \<^verbatim>\<open>hcl2\<close> the status is 2.
\<close>

theorem exit_status_witness:
  "program True example_tree = Exit 1 \<and> program True clean_tree = Exit 0 \<and>
   program False example_tree = Exit 2"
proof -
  obtain r where r: "main_state example_tree = Inr r" "missing r = [str ''project_id'']"
    using main_state_scan [OF example_scan]
    by (simp add: compare_sets_fields str_def)
  have "missing r \<noteq> []" using r(2) by simp
  then have one: "program True example_tree = Exit 1"
    using exit_status [of True example_tree r] r(1) by blast
  have "main_state clean_tree = Inr (compare_sets ({str ''a''}, {str ''a''}, {}, {}))"
    using clean_scan by (rule main_state_scan)
  moreover have "unused (compare_sets ({str ''a''}, {str ''a''}, {}, {})) = []"
    "missing (compare_sets ({str ''a''}, {str ''a''}, {}, {})) = []"
    "tfvars_extra (compare_sets ({str ''a''}, {str ''a''}, {}, {})) = []"
    by (simp_all add: compare_sets_fields)
  ultimately have zero: "program True clean_tree = Exit 0"
    using exit_status [of True clean_tree] by blast
  have two: "program False example_tree = Exit 2"
    using exit_status [of False example_tree] by blast
  show ?thesis using one zero two by simp
qed

section \<open>The scan for declaration headers finds every header\<close>

text \<open>
  A match of the fallback pattern at the head of a text is a header in the sense of
  \<open>decl_header\<close>, and conversely. No header starts inside another one, so the scan, which
  resumes after each match, misses none: it returns the identifiers of all headers.
\<close>

lemma class_facts:
  "\<not> is_space 34" "\<not> is_word 34" "\<not> is_space 123" "\<not> is_space 118"
  "list_all is_word (str ''variable'')" "118 \<notin> set (tl (str ''variable''))"
  "length (str ''variable'') = 8"
  by (simp_all add: is_space_def is_word_def str_def)

lemma space_not_word: "is_space c \<Longrightarrow> \<not> is_word c"
  by (auto simp: is_space_def is_word_def)

lemma header_is_match:
  assumes "decl_header s ident rest"
  shows "variable_decl_match s = Some (ident, rest)"
proof -
  from assms obtain ws ws' where
    eq: "s = str ''variable'' @ ws @ [34] @ ident @ [34] @ ws' @ [123] @ rest" and
    ws: "ws \<noteq> []" "\<forall>c \<in> set ws. is_space c" and
    ident: "ident \<noteq> []" "\<forall>c \<in> set ident. is_word c" and
    ws': "\<forall>c \<in> set ws'. is_space c"
    unfolding decl_header_def list_all_iff by blast
  have p: "prefix (str ''variable'') s" using eq by simp
  have d8: "drop 8 s = ws @ 34 # ident @ 34 # ws' @ 123 # rest"
    using eq by (simp add: str_def)
  have s1: "takeWhile is_space (ws @ 34 # ident @ 34 # ws' @ 123 # rest) = ws \<and>
            dropWhile is_space (ws @ 34 # ident @ 34 # ws' @ 123 # rest) = 34 # ident @ 34 # ws' @ 123 # rest"
    using ws(2) by (intro takeWhile_dropWhile_split) (simp_all add: class_facts)
  have s2: "takeWhile is_word (ident @ 34 # ws' @ 123 # rest) = ident \<and>
            dropWhile is_word (ident @ 34 # ws' @ 123 # rest) = 34 # ws' @ 123 # rest"
    using ident(2) by (intro takeWhile_dropWhile_split) (simp_all add: class_facts)
  have s3: "takeWhile is_space (ws' @ 123 # rest) = ws' \<and>
            dropWhile is_space (ws' @ 123 # rest) = 123 # rest"
    using ws' by (intro takeWhile_dropWhile_split) (simp_all add: class_facts)
  show ?thesis
    unfolding variable_decl_match_def using p ws(1) ident(1)
    by (simp add: d8 s1 s2 s3)
qed

lemma match_is_header:
  assumes "variable_decl_match s = Some (ident, rest)"
  shows "decl_header s ident rest"
proof -
  from assms have p: "prefix (str ''variable'') s"
    by (auto simp: variable_decl_match_def split: if_splits)
  define ws where "ws = takeWhile is_space (drop 8 s)"
  from assms obtain r3 r5 where
    a: "dropWhile is_space (drop 8 s) = 34 # r3" and
    ne: "ws \<noteq> []" "takeWhile is_word r3 \<noteq> []" and
    i: "ident = takeWhile is_word r3" and
    b: "dropWhile is_word r3 = 34 # r5" and
    c: "dropWhile is_space r5 = 123 # rest"
    unfolding ws_def
    by (auto simp: variable_decl_match_def Let_def split: if_splits list.splits)
  define ws' where "ws' = takeWhile is_space r5"
  have "s = str ''variable'' @ drop 8 s"
    using p by (auto simp: prefix_def str_def)
  also have "drop 8 s = ws @ 34 # r3"
    unfolding ws_def a [symmetric] by simp
  also have "r3 = ident @ 34 # r5"
    unfolding i b [symmetric] by simp
  also have "r5 = ws' @ 123 # rest"
    unfolding ws'_def c [symmetric] by simp
  finally have "s = str ''variable'' @ ws @ [34] @ ident @ [34] @ ws' @ [123] @ rest"
    by simp
  moreover have "list_all is_space ws" "list_all is_word ident" "list_all is_space ws'"
    unfolding ws_def i ws'_def list_all_iff by (auto dest: set_takeWhileD)
  ultimately show ?thesis
    unfolding decl_header_def using ne i by blast
qed

lemma match_iff_header: "variable_decl_match s = Some (ident, rest) \<longleftrightarrow> decl_header s ident rest"
  using header_is_match match_is_header by blast

lemma split_append:
  assumes "xs @ ys = a @ b"
  obtains (beyond) c where "a = xs @ c" "ys = c @ b"
        | (inside) c where "xs = a @ c" "c \<noteq> []" "b = c @ ys"
proof -
  from assms consider us where "xs = a @ us" "us @ ys = b" | us where "xs @ us = a" "ys = us @ b"
    unfolding append_eq_append_conv2 by blast
  then show thesis
  proof cases
    case 1
    show ?thesis
    proof (cases "us = []")
      case True
      then show ?thesis using 1 beyond [of "[]"] by simp
    next
      case False
      then show ?thesis using 1 inside [of us] by simp
    qed
  next
    case 2
    then show ?thesis using beyond [of us] by simp
  qed
qed

lemma match_starts_with_v:
  assumes "variable_decl_match t \<noteq> None"
  obtains u where "t = str ''variable'' @ u" "u \<noteq> []" "is_space (hd u)"
proof -
  from assms have p: "prefix (str ''variable'') t" and w: "takeWhile is_space (drop 8 t) \<noteq> []"
    by (auto simp: variable_decl_match_def Let_def split: if_splits)
  from p have t: "t = str ''variable'' @ drop 8 t"
    by (auto simp: prefix_def str_def)
  from w have "drop 8 t \<noteq> []" by auto
  moreover from w have "is_space (hd (drop 8 t))"
    by (metis hd_in_set set_takeWhileD takeWhile_eq_Nil_iff list.collapse
        \<open>drop 8 t \<noteq> []\<close>)
  ultimately show thesis using t that by blast
qed

lemma hd_inside:
  assumes "xs = a @ c" and "c \<noteq> []"
  shows "hd c \<in> set xs"
  using assms by (cases c) auto

lemma no_header_inside:
  assumes h: "decl_header s ident rest" and s: "s = a @ t" and a: "a \<noteq> []"
    and len: "length rest < length t"
  shows "variable_decl_match t = None"
proof (rule ccontr)
  assume "variable_decl_match t \<noteq> None"
  then obtain u where t: "t = str ''variable'' @ u" and u: "u \<noteq> []" "is_space (hd u)"
    by (rule match_starts_with_v)
  from h obtain ws ws' where
    eq: "s = str ''variable'' @ ws @ [34] @ ident @ [34] @ ws' @ [123] @ rest" and
    ws: "\<forall>c \<in> set ws. is_space c" and
    ident: "\<forall>c \<in> set ident. is_word c" and
    ws': "\<forall>c \<in> set ws'. is_space c"
    unfolding decl_header_def list_all_iff by blast
  let ?W = "str ''variable'' @ ws @ [34] @ ident @ [34] @ ws' @ [123]"
  have "?W @ rest = a @ t" using eq s by simp
  then obtain w where w: "?W = a @ w" "w \<noteq> []" "t = w @ rest"
  proof (cases rule: split_append)
    case (beyond c)
    then have "length t \<le> length rest" by (metis length_append le_add2)
    then show ?thesis using len by simp
  next
    case (inside c)
    then show ?thesis using that by blast
  qed
  have hd_t: "hd t = 118" using t by (simp add: str_def)
  then have v: "hd w = 118" using w(2,3) by (cases w) auto
  from w(1) have "str ''variable'' @ (ws @ [34] @ ident @ [34] @ ws' @ [123]) = a @ w" by simp
  then show False
  proof (cases rule: split_append)
    case (inside c)
    from inside(1) a obtain a' where "a = 118 # a'" "tl (str ''variable'') = a' @ c"
      by (cases a) (auto simp: str_def)
    then have "hd c \<in> set (tl (str ''variable''))"
      using inside(2) hd_inside by metis
    moreover have "hd w = hd c" using inside(2,3) by (cases c) auto
    ultimately show False using v class_facts(6) by simp
  next
    case b1: (beyond c1)
    from b1(2) show False
    proof (cases rule: split_append)
      case (inside c)
      then have "hd c \<in> set ws" using hd_inside by metis
      moreover have "hd w = hd c" using inside(2,3) by (cases c) auto
      ultimately show False using v ws class_facts(4) by auto
    next
      case b2: (beyond c2)
      from b2(2) show False
      proof (cases rule: split_append)
        case (inside c)
        then have "hd c \<in> set [34]" using hd_inside by metis
        moreover have "hd w = hd c" using inside(2,3) by (cases c) auto
        ultimately show False using v by simp
      next
        case b3: (beyond c3)
        from b3(2) show False
        proof (cases rule: split_append)
          case (inside c)
          let ?R = "34 # ws' @ 123 # rest"
          have tc: "t = c @ ?R" using inside(3) w(3) by simp
          have cw: "\<forall>x \<in> set c. is_word x" using inside(1) ident by auto
          have "takeWhile is_word (c @ ?R) = c \<and> dropWhile is_word (c @ ?R) = ?R"
            using cw by (intro takeWhile_dropWhile_split) (simp_all add: class_facts)
          then have tw: "takeWhile is_word t = c" using tc by simp
          have "\<not> is_word (hd u)" using u(2) by (rule space_not_word)
          then have "takeWhile is_word u = []" using u(1) by (cases u) auto
          moreover have "takeWhile is_word (str ''variable'' @ u) = str ''variable'' @ takeWhile is_word u"
            using class_facts(5) by (intro takeWhile_append2) (simp add: list_all_iff)
          ultimately have "c = str ''variable''" using tw t by simp
          then have "u = ?R" using tc t by simp
          then show False using u(2) class_facts(1) by simp
        next
          case b4: (beyond c4)
          from b4(2) show False
          proof (cases rule: split_append)
            case (inside c)
            then have "hd c \<in> set [34]" using hd_inside by metis
            moreover have "hd w = hd c" using inside(2,3) by (cases c) auto
            ultimately show False using v by simp
          next
            case b5: (beyond c5)
            from b5(2) show False
            proof (cases rule: split_append)
              case (inside c)
              then have "hd c \<in> set ws'" using hd_inside by metis
              moreover have "hd w = hd c" using inside(2,3) by (cases c) auto
              ultimately show False using v ws' class_facts(4) by auto
            next
              case b6: (beyond c6)
              from b6(2) have "[123] @ [] = c6 @ w" by simp
              then show False
              proof (cases rule: split_append)
                case (inside c)
                then have "hd c \<in> set [123]" using hd_inside by metis
                moreover have "hd w = hd c" using inside(2,3) by (cases c) auto
                ultimately show False using v by simp
              next
                case (beyond c7)
                then show False using w(2) by simp
              qed
            qed
          qed
        qed
      qed
    qed
  qed
qed

lemma header_rest_suffix:
  assumes "decl_header s ident rest"
  obtains w where "s = w @ rest" "w \<noteq> []"
proof -
  from assms obtain ws ws' where
    "s = (str ''variable'' @ ws @ [34] @ ident @ [34] @ ws' @ [123]) @ rest"
    unfolding decl_header_def by auto
  then show thesis using that by blast
qed

lemma declared_headers_Nil: "declared_headers [] = {}"
proof -
  have "\<not> decl_header [] ident rest" for ident rest
    unfolding decl_header_def by (simp add: str_def)
  then show ?thesis unfolding declared_headers_def by simp
qed

lemma declared_headers_Cons:
  "declared_headers (c # cs) = {ident. \<exists>rest. decl_header (c # cs) ident rest} \<union> declared_headers cs"
proof (intro set_eqI iffI)
  fix ident
  assume "ident \<in> declared_headers (c # cs)"
  then obtain pre s rest where e: "c # cs = pre @ s" and h: "decl_header s ident rest"
    unfolding declared_headers_def by blast
  show "ident \<in> {ident. \<exists>rest. decl_header (c # cs) ident rest} \<union> declared_headers cs"
  proof (cases pre)
    case Nil
    then show ?thesis using e h by auto
  next
    case (Cons x pre')
    then have "cs = pre' @ s" using e by simp
    then show ?thesis using h unfolding declared_headers_def by blast
  qed
next
  fix ident
  assume "ident \<in> {ident. \<exists>rest. decl_header (c # cs) ident rest} \<union> declared_headers cs"
  then consider rest where "decl_header (c # cs) ident rest" | "ident \<in> declared_headers cs"
    by blast
  then show "ident \<in> declared_headers (c # cs)"
  proof cases
    case 1
    then have "c # cs = [] @ (c # cs) \<and> decl_header (c # cs) ident rest" by simp
    then show ?thesis unfolding declared_headers_def by blast
  next
    case 2
    then obtain pre s rest where "cs = pre @ s" and h: "decl_header s ident rest"
      unfolding declared_headers_def by blast
    then have "c # cs = (c # pre) @ s" by simp
    then show ?thesis using h unfolding declared_headers_def by blast
  qed
qed

lemma declared_headers_after_match:
  assumes h: "decl_header (c # cs) ident0 rest0"
  shows "declared_headers cs = declared_headers rest0"
proof (intro set_eqI iffI)
  fix ident
  assume "ident \<in> declared_headers cs"
  then obtain pre s rest where e: "cs = pre @ s" and hs: "decl_header s ident rest"
    unfolding declared_headers_def by blast
  have e': "c # cs = (c # pre) @ s" using e by simp
  have "\<not> length rest0 < length s"
  proof
    assume l: "length rest0 < length s"
    have "c # pre \<noteq> []" by simp
    with h e' have "variable_decl_match s = None"
      using l by (rule no_header_inside)
    then show False using header_is_match [OF hs] by simp
  qed
  then have le: "length s \<le> length rest0" by simp
  obtain w where w: "c # cs = w @ rest0"
    using h by (rule header_rest_suffix)
  have "\<exists>p. rest0 = p @ s"
  proof -
    have "w @ rest0 = (c # pre) @ s" using w e' by simp
    then show ?thesis
    proof (cases rule: split_append)
      case (beyond u)
      then show ?thesis by blast
    next
      case (inside u)
      then have "length rest0 < length s" by (cases u) auto
      then show ?thesis using le by simp
    qed
  qed
  then obtain p where "rest0 = p @ s" by blast
  then show "ident \<in> declared_headers rest0"
    using hs unfolding declared_headers_def by blast
next
  fix ident
  assume "ident \<in> declared_headers rest0"
  then obtain pre s rest where e: "rest0 = pre @ s" and hs: "decl_header s ident rest"
    unfolding declared_headers_def by blast
  obtain w where w: "c # cs = w @ rest0" "w \<noteq> []"
    using h by (rule header_rest_suffix)
  then obtain w' where "w = c # w'" by (cases w) auto
  then have "cs = (w' @ pre) @ s" using w(1) e by simp
  then show "ident \<in> declared_headers cs"
    using hs unfolding declared_headers_def by blast
qed

lemma findall_variable_decl_exact:
  "set (findall_variable_decl src) = declared_headers src"
proof (induction src rule: findall_variable_decl.induct)
  case 1
  show ?case by (simp add: declared_headers_Nil)
next
  case (2 c cs)
  show ?case
  proof (cases "variable_decl_match (c # cs)")
    case None
    have "\<not> decl_header (c # cs) ident rest" for ident rest
      using header_is_match [of "c # cs" ident rest] None by auto
    then have "{ident. \<exists>rest. decl_header (c # cs) ident rest} = {}"
      by simp
    then show ?thesis
      using None "2.IH" by (simp add: declared_headers_Cons)
  next
    case (Some m)
    obtain ident0 rest0 where m: "m = (ident0, rest0)" by (cases m)
    have h: "decl_header (c # cs) ident0 rest0"
      using Some m match_is_header by simp
    have "ident = ident0" if "decl_header (c # cs) ident rest" for ident rest
      using header_is_match [OF that] Some m by simp
    then have "{ident. \<exists>rest. decl_header (c # cs) ident rest} = {ident0}"
      using h by blast
    moreover have "set (findall_variable_decl rest0) = declared_headers rest0"
      using "2.IH" Some m by simp
    ultimately show ?thesis
      using Some m declared_headers_after_match [OF h]
      by (simp add: declared_headers_Cons)
  qed
qed

section \<open>The declaration extractor: the fallback\<close>

text \<open>
  What the fallback does on a file that can be read: when the parser rejects the text,
  the result is the set of the identifiers of all declaration headers in the text, and no
  exception; when there is no header, that is the empty set.
\<close>

lemma fallback_on_parse_error:
  assumes "read_text env path = Inr txt" and "hcl2_loads env txt = Inl e"
  shows "parse_declared_vars_from_tf env path = Inr (declared_headers txt)"
  using assms
  by (simp add: parse_declared_vars_from_tf_def hcl_load_def regex_fallback_def
      findall_variable_decl_exact)

lemma fallback_finds_nothing:
  assumes "read_text env path = Inr txt" and "hcl2_loads env txt = Inl e"
    and "declared_headers txt = {}"
  shows "parse_declared_vars_from_tf env path = Inr {}"
  using assms by (simp add: fallback_on_parse_error)

text \<open>
  When the file cannot be read, \<open>hcl_load\<close> raises and the fallback is taken as well; it
  reads the file again and the exception of that read is what the extractor raises.
\<close>

lemma fallback_on_read_error:
  assumes "read_text env path = Inl e"
  shows "parse_declared_vars_from_tf env path = Inl e"
  using assms by (simp add: parse_declared_vars_from_tf_def hcl_load_def regex_fallback_def)

text \<open>
  Claim C5 fails on the code. On the tree whose file \<^verbatim>\<open>notes.tf\<close> is not valid UTF-8,
  \<open>hcl_load\<close> raises, the fallback is entered and raises in turn: the extractor raises
  \<^verbatim>\<open>UnicodeDecodeError\<close>, and so does \<open>main\<close>, which the process lets through. The
  override extractor returns the empty set on the same file.
\<close>

theorem fallback_raises_on_undecodable_file:
  "hcl_load undecodable_tree (str ''notes.tf'') = Inl UnicodeDecodeError \<and>
   regex_fallback undecodable_tree (str ''notes.tf'') = Inl UnicodeDecodeError \<and>
   parse_declared_vars_from_tf undecodable_tree (str ''notes.tf'') = Inl UnicodeDecodeError \<and>
   parse_tfvars undecodable_tree (str ''notes.tf'') = Inr {} \<and>
   main undecodable_tree = Inl UnicodeDecodeError \<and>
   program True undecodable_tree = Uncaught UnicodeDecodeError"
  by (simp add: program_def main_def main_state_def run_defs filter_defs undecodable_tree_def
      str_def)

section \<open>The declaration extractor: the structured branch\<close>

text \<open>
  What the structured branch does on a document of the expected shape. A document that
  is neither a dictionary nor a list gives the empty set. A dictionary without the key
  \<^verbatim>\<open>variable\<close> gives the empty set; a dictionary whose \<^verbatim>\<open>variable\<close> entry is a list
  gives the keys of the entries that are dictionaries, the other entries being skipped.
  A parsed document never leads to the fallback.
\<close>

lemma structured_scalar_document:
  assumes "\<forall>kvs. data \<noteq> PDict kvs" and "\<forall>xs. data \<noteq> PList xs"
  shows "declared_from_data data = Inr {}"
  using assms by (cases data) (simp_all add: declared_from_data_def)

lemma fold_entry_names:
  "fold (\<lambda>entry acc. acc \<union> entry_names entry) entries acc = acc \<union> \<Union> (entry_names ` set entries)"
  by (induction entries arbitrary: acc) auto

lemma structured_no_variable_key:
  assumes "str ''variable'' \<notin> fst ` set kvs"
  shows "declared_from_data (PDict kvs) = Inr {}"
  using assms by (simp add: declared_from_data_def block_declared_def)

lemma structured_variable_list:
  assumes "map_of kvs (str ''variable'') = Some (PList entries)"
  shows "declared_from_data (PDict kvs) = Inr (\<Union> (entry_names ` set entries))"
proof -
  have "str ''variable'' \<in> fst ` set kvs"
    using assms by (metis map_of_eq_None_iff option.distinct(1))
  then show ?thesis
    using assms by (simp add: declared_from_data_def block_declared_def fold_entry_names)
qed

lemma structured_never_falls_back:
  assumes "hcl_load env path = Inr data"
  shows "parse_declared_vars_from_tf env path = declared_from_data data"
  using assms by (simp add: parse_declared_vars_from_tf_def)

text \<open>
  Claim C10 fails on the code. The structured branch stands outside the \<^verbatim>\<open>try\<close>, and it
  raises \<^verbatim>\<open>TypeError\<close> on a dictionary whose \<^verbatim>\<open>variable\<close> entry is not iterable (the
  document of a file that holds the attribute \<^verbatim>\<open>variable = 5\<close>) and on a list with an
  element that is not a container. The exception is not caught: the extractor raises
  it, the fallback is not entered, and the process ends uncaught.
\<close>

theorem structured_branch_raises_on_attribute:
  "hcl_load attribute_tree (str ''main.tf'') = Inr (PDict [(str ''variable'', PInt 5)]) \<and>
   declared_from_data (PDict [(str ''variable'', PInt 5)]) = Inl TypeError \<and>
   declared_from_data (PList [PInt 5]) = Inl TypeError \<and>
   parse_declared_vars_from_tf attribute_tree (str ''main.tf'') = Inl TypeError \<and>
   regex_fallback attribute_tree (str ''main.tf'') = Inr {} \<and>
   program True attribute_tree = Uncaught TypeError"
  by (simp add: program_def main_def main_state_def run_defs class_defs filter_defs
      attribute_tree_def str_def)

end
